theory Spec2Isabelle
  imports Complex_Main "HOL-Library.AList"
begin

section \<open>Data model\<close>

text \<open>
  A Python string is a sequence of Unicode code points, and the alphabet of the notebook
  has ten letters beyond ASCII. A character is therefore its code point (what \<open>ord\<close>
  returns) and a string the list of its code points; \<open>py_str\<close> writes an ASCII literal
  in that form, and \<open>chr\<close> is the identity on code points.
\<close>

type_synonym codepoint = nat
type_synonym str = "codepoint list"

definition py_str :: "string \<Rightarrow> str" where
  "py_str s = map of_char s"

text \<open>The exceptions the modelled cells can raise.\<close>

datatype error = KeyError | IndexError | ValueError | OverflowError

text \<open>
  A Python \<open>dict\<close> is an association list with one pair per key, in insertion order:
  storing under a key already present replaces its value in place, a new key is appended.
  \<open>dict kvs\<close> is \<open>dict(kvs)\<close>, \<open>map_of d k\<close> is the lookup \<open>d[k]\<close> (\<open>None\<close> where
  Python raises \<open>KeyError\<close>) and \<open>length d\<close> is \<open>len(d)\<close>.
\<close>

type_synonym ('k, 'v) dict = "('k \<times> 'v) list"

definition dict :: "('k \<times> 'v) list \<Rightarrow> ('k, 'v) dict" where
  "dict kvs = fold (\<lambda>(k, v) d. AList.update k v d) kvs []"

subsection \<open>Mappings\<close>

text \<open>
  \<open>standard_chars\<close> is \<open>chr(i)\<close> for \<open>i\<close> in \<open>range(97, 123)\<close>, the letters \<open>a\<close> to
  \<open>z\<close>. The first ten special characters are the accented letters of the source, each
  a single code point (\<open>U+00E0\<close>, \<open>U+00E1\<close>, \<open>U+00E8\<close>, \<open>U+00E9\<close>, \<open>U+00ED\<close>,
  \<open>U+00F2\<close>, \<open>U+00F3\<close>, \<open>U+00FA\<close>, \<open>U+00F1\<close>, \<open>U+00E7\<close>); the apostrophe, the dot
  and the space follow. Every entry is a string of one character.
\<close>

definition standard_chars :: "str list" where
  "standard_chars = map (\<lambda>i. [i]) [97..<123]"

definition special_chars :: "str list" where
  "special_chars = [[224], [225], [232], [233], [237], [242], [243], [250], [241], [231],
     py_str [CHR 0x27], py_str ''.'', py_str '' '']"

definition chars :: "str list" where
  "chars = standard_chars @ special_chars"

definition seq :: "int list" where
  "seq = map int [0..<length chars]"

definition map_char_to_int :: "(str, int) dict" where
  "map_char_to_int = dict (zip chars seq)"

definition map_int_to_char :: "(int, str) dict" where
  "map_int_to_char = dict (zip seq chars)"

text \<open>\<open>n\<close> is the number of features, the size of the vocabulary.\<close>

definition n :: int where
  "n = int (length map_char_to_int)"

subsection \<open>Auxiliary functions for mapping\<close>

text \<open>
  A two-dimensional array is the list of its rows. \<open>set_item a i pos v\<close> is the
  assignment \<open>a[i, pos] = v\<close> for a row \<open>i\<close> that exists: a negative column counts from
  the end of the row. A column outside the row on either side fails: with
  \<open>OverflowError\<close> when it does not fit the signed 64-bit integer the library converts
  an index to, and with \<open>IndexError\<close> otherwise. The library converts before it
  compares with the width; no array has \<open>2^63\<close> columns, so a column inside the row
  always fits and the order of the two tests does not show.
\<close>

definition set_item :: "'a list list \<Rightarrow> nat \<Rightarrow> int \<Rightarrow> 'a \<Rightarrow> error + 'a list list" where
  "set_item a i pos v =
     (let w = int (length (a ! i));
          j = (if pos < 0 then w + pos else pos)
      in if 0 \<le> j \<and> j < w then Inr (a[i := (a ! i)[nat j := v]])
         else if pos < - (2 ^ 63) \<or> 2 ^ 63 \<le> pos then Inl OverflowError
         else Inl IndexError)"

text \<open>
  \<open>one_hot_encoding\<close>: the array of zeros of shape \<open>(k, features)\<close> (a negative
  dimension raises \<open>ValueError\<close>), then the loop over \<open>range(k)\<close> that sets one entry
  per row. The array has dtype \<open>int8\<close>; only 0 and 1 are ever stored in it.
\<close>

fun one_hot_rows :: "nat list \<Rightarrow> int list \<Rightarrow> int list list \<Rightarrow> error + int list list" where
  "one_hot_rows [] word_int word_encoded = Inr word_encoded"
| "one_hot_rows (i # is) word_int word_encoded =
     (let pos = word_int ! i
      in case set_item word_encoded i pos 1 of
           Inl e \<Rightarrow> Inl e
         | Inr word_encoded' \<Rightarrow> one_hot_rows is word_int word_encoded')"

definition one_hot_encoding :: "int list \<Rightarrow> int \<Rightarrow> error + int list list" where
  "one_hot_encoding word_int features =
     (let k = length word_int
      in if features < 0 then Inl ValueError
         else one_hot_rows [0..<k] word_int (replicate k (replicate (nat features) 0)))"

text \<open>
  \<open>argmax\<close> is the library's \<open>np.argmax\<close> on one row: the index of the first
  occurrence of the greatest entry, and \<open>ValueError\<close> on an empty row. The entries are
  of any linearly ordered type: the 0/1 integers of a one-hot row, or the model's
  probabilities.
\<close>

fun argmax_from :: "'a::linorder list \<Rightarrow> nat \<Rightarrow> 'a \<Rightarrow> nat \<Rightarrow> nat" where
  "argmax_from [] i best best_i = best_i"
| "argmax_from (v # vs) i best best_i =
     (if best < v then argmax_from vs (Suc i) v i else argmax_from vs (Suc i) best best_i)"

definition argmax :: "'a::linorder list \<Rightarrow> error + nat" where
  "argmax a = (case a of [] \<Rightarrow> Inl ValueError | v # vs \<Rightarrow> Inr (argmax_from vs 1 v 0))"

text \<open>
  \<open>one_hot_decoding\<close>: the loop over \<open>range(a)\<close> that writes the position found in
  row \<open>i\<close> at \<open>word_int[i]\<close>. The positions are kept in an \<open>int32\<close> array, which
  holds them unchanged for rows of fewer than \<open>2^31\<close> entries.
\<close>

fun one_hot_decoding_rows ::
  "nat list \<Rightarrow> 'a::linorder list list \<Rightarrow> int list \<Rightarrow> error + int list" where
  "one_hot_decoding_rows [] word_encoded word_int = Inr word_int"
| "one_hot_decoding_rows (i # is) word_encoded word_int =
     (case argmax (word_encoded ! i) of
        Inl e \<Rightarrow> Inl e
      | Inr pos \<Rightarrow> one_hot_decoding_rows is word_encoded (word_int[i := int pos]))"

definition one_hot_decoding :: "'a::linorder list list \<Rightarrow> error + int list" where
  "one_hot_decoding word_encoded =
     (let a = length word_encoded
      in one_hot_decoding_rows [0..<a] word_encoded (replicate a 0))"

text \<open>
  \<open>encode_word_to_int\<close>: the loop over \<open>enumerate(word)\<close>; each character \<open>c\<close> of the
  word is the one-character string \<open>[c]\<close>, looked up in the mapping. The result is an
  \<open>int32\<close> array: the values of \<open>map_char_to_int\<close>, all below 39, are stored unchanged.
\<close>

fun encode_word_loop ::
  "(nat \<times> codepoint) list \<Rightarrow> (str, int) dict \<Rightarrow> int list \<Rightarrow> error + int list" where
  "encode_word_loop [] mapping word_int = Inr word_int"
| "encode_word_loop ((i, c) # ics) mapping word_int =
     (case map_of mapping [c] of
        None \<Rightarrow> Inl KeyError
      | Some v \<Rightarrow> encode_word_loop ics mapping (word_int[i := v]))"

definition encode_word_to_int :: "str \<Rightarrow> (str, int) dict \<Rightarrow> error + int list" where
  "encode_word_to_int word mapping =
     (let k = length word
      in encode_word_loop (enumerate 0 word) mapping (replicate k 0))"

text \<open>\<open>decode_int_to_word\<close>: the loop over the integers, with its \<open>else\<close> branch.\<close>

fun decode_word_loop :: "int list \<Rightarrow> (int, str) dict \<Rightarrow> str \<Rightarrow> str" where
  "decode_word_loop [] mapping word = word"
| "decode_word_loop (i # is) mapping word =
     (case map_of mapping i of
        Some s \<Rightarrow> decode_word_loop is mapping (word @ s)
      | None \<Rightarrow> decode_word_loop is mapping (word @ py_str ''UNK''))"

definition decode_int_to_word :: "int list \<Rightarrow> (int, str) dict \<Rightarrow> str" where
  "decode_int_to_word word_int mapping = decode_word_loop word_int mapping []"

section \<open>Load and map data\<close>

text \<open>
  The corpus \<open>male_names_data\<close> is the parameter of everything below, taken after the
  lower-casing cell. \<open>timesteps\<close> is the length of the longest name: \<open>max\<close> with
  \<open>key = len\<close> keeps the first name of greatest length and raises \<open>ValueError\<close> on an
  empty corpus. The notebook computes it one cell before the lower-casing; \<open>str.lower\<close>
  changes the length of a string only by turning \<open>U+0130\<close> into two code points, the
  second of which is outside the alphabet, so for every corpus that the encoding
  accepts the lengths before and after are the same.
\<close>

definition max_key_len :: "str list \<Rightarrow> error + str" where
  "max_key_len names =
     (case names of
        [] \<Rightarrow> Inl ValueError
      | w # ws \<Rightarrow> Inr (fold (\<lambda>v best. if length best < length v then v else best) ws w))"

definition timesteps :: "str list \<Rightarrow> error + nat" where
  "timesteps male_names_data = map_sum id length (max_key_len male_names_data)"

text \<open>A list comprehension whose body may raise stops at the first exception.\<close>

fun comprehension :: "('a \<Rightarrow> error + 'b) \<Rightarrow> 'a list \<Rightarrow> error + 'b list" where
  "comprehension f [] = Inr []"
| "comprehension f (v # vs) =
     (case f v of
        Inl e \<Rightarrow> Inl e
      | Inr r \<Rightarrow> (case comprehension f vs of Inl e \<Rightarrow> Inl e | Inr rs \<Rightarrow> Inr (r # rs)))"

definition y_male :: "str list \<Rightarrow> str list" where
  "y_male X_male = map (\<lambda>name. drop 1 name @ py_str ''.'') X_male"

text \<open>
  The loop that fills \<open>X_male_int\<close> and \<open>X_male_encoded\<close>, one name after the other.
\<close>

fun encode_names ::
  "str list \<Rightarrow> int list list \<times> int list list list \<Rightarrow>
     error + int list list \<times> int list list list" where
  "encode_names [] (X_int, X_encoded) = Inr (X_int, X_encoded)"
| "encode_names (word # ws) (X_int, X_encoded) =
     (case encode_word_to_int word map_char_to_int of
        Inl e \<Rightarrow> Inl e
      | Inr word_int \<Rightarrow>
          (case one_hot_encoding word_int n of
             Inl e \<Rightarrow> Inl e
           | Inr word_encoded \<Rightarrow>
               encode_names ws (X_int @ [word_int], X_encoded @ [word_encoded])))"

definition X_male_int :: "str list \<Rightarrow> error + int list list" where
  "X_male_int X_male = map_sum id fst (encode_names X_male ([], []))"

definition X_male_encoded :: "str list \<Rightarrow> error + int list list list" where
  "X_male_encoded X_male = map_sum id snd (encode_names X_male ([], []))"

text \<open>
  The labels. \<open>lookup\<close> is a subscript \<open>d[k]\<close> that raises \<open>KeyError\<close>. Every
  \<open>word_int\<close> is a one-dimensional array, so \<open>word_int[1:] + [d]\<close> is the library's
  element-wise sum with broadcasting, \<open>np_add\<close>: operands of one length are added
  entry by entry, an operand of length one is added to every entry of the other, and
  any other pair of lengths raises \<open>ValueError\<close>.
\<close>

definition lookup :: "('k, 'v) dict \<Rightarrow> 'k \<Rightarrow> error + 'v" where
  "lookup d k = (case map_of d k of None \<Rightarrow> Inl KeyError | Some v \<Rightarrow> Inr v)"

definition np_add :: "int list \<Rightarrow> int list \<Rightarrow> error + int list" where
  "np_add a b =
     (if length a = length b then Inr (map2 (+) a b)
      else if length b = 1 then Inr (map (\<lambda>v. v + hd b) a)
      else if length a = 1 then Inr (map (\<lambda>v. hd a + v) b)
      else Inl ValueError)"

definition dot_encoded :: "error + int list list" where
  "dot_encoded =
     (case lookup map_char_to_int (py_str ''.'') of
        Inl e \<Rightarrow> Inl e
      | Inr d \<Rightarrow> one_hot_encoding [d] n)"

definition y_male_int :: "str list \<Rightarrow> error + int list list" where
  "y_male_int X_male =
     (case X_male_int X_male of
        Inl e \<Rightarrow> Inl e
      | Inr X_int \<Rightarrow>
          comprehension
            (\<lambda>word_int. case lookup map_char_to_int (py_str ''.'') of
                           Inl e \<Rightarrow> Inl e
                         | Inr d \<Rightarrow> np_add (drop 1 word_int) [d])
            X_int)"

definition y_male_encoded :: "str list \<Rightarrow> error + int list list list" where
  "y_male_encoded X_male =
     (case X_male_encoded X_male of
        Inl e \<Rightarrow> Inl e
      | Inr X_encoded \<Rightarrow>
          (case dot_encoded of
             Inl e \<Rightarrow> Inl e
           | Inr dot \<Rightarrow> Inr (map (\<lambda>l. drop 1 l @ dot) X_encoded)))"

subsection \<open>Padding\<close>

text \<open>
  \<open>pad_sequences\<close> is the library function of Keras, as the two cells call it:
  \<open>padding = 'post'\<close>, \<open>truncating = 'post'\<close>, \<open>value = 0\<close>. The row width is that of
  the first sample that has a row; a sample of another width raises \<open>ValueError\<close>; a
  sample is cut to its first \<open>maxlen\<close> rows and filled up to \<open>maxlen\<close> rows with rows
  of zeros at its end. When no sample has a row the library's result has no feature
  axis: the model's rows are empty there.
\<close>

definition pad_sequences :: "int list list list \<Rightarrow> nat \<Rightarrow> error + int list list list" where
  "pad_sequences sequences maxlen =
     (case filter (\<lambda>s. s \<noteq> []) sequences of
        [] \<Rightarrow> Inr (map (\<lambda>s. replicate maxlen []) sequences)
      | s0 # _ \<Rightarrow>
          (let w = length (hd s0)
           in if \<forall>s \<in> set sequences. \<forall>r \<in> set s. length r = w
              then Inr (map (\<lambda>s. take maxlen s
                                  @ replicate (maxlen - length (take maxlen s)) (replicate w 0))
                          sequences)
              else Inl ValueError))"

definition X_male_padded :: "str list \<Rightarrow> error + int list list list" where
  "X_male_padded male_names_data =
     (case timesteps male_names_data of
        Inl e \<Rightarrow> Inl e
      | Inr t \<Rightarrow>
          (case X_male_encoded male_names_data of
             Inl e \<Rightarrow> Inl e
           | Inr X_encoded \<Rightarrow> pad_sequences X_encoded t))"

definition y_male_padded :: "str list \<Rightarrow> error + int list list list" where
  "y_male_padded male_names_data =
     (case timesteps male_names_data of
        Inl e \<Rightarrow> Inl e
      | Inr t \<Rightarrow>
          (case y_male_encoded male_names_data of
             Inl e \<Rightarrow> Inl e
           | Inr y_encoded \<Rightarrow> pad_sequences y_encoded t))"

section \<open>Text generation\<close>

text \<open>
  The two generation cells run in the notebook's global namespace: the variables \<open>x\<close>,
  \<open>word\<close> and \<open>c\<close> one cell leaves behind are there when the next one starts, and so
  is the state of the library's random generator. \<open>x\<close> has shape \<open>(1, L, n)\<close> and is
  the list of its \<open>L\<close> rows; its entries are the floats 0.0 and 1.0 only, written as
  integers. The entries of the network's output are of an arbitrary type \<open>'p\<close>,
  linearly ordered where \<open>argmax\<close> compares them.
\<close>

record 'g globals =
  var_x :: "int list list"
  var_word :: str
  var_c :: str
  np_random :: 'g

text \<open>
  The trained network is a parameter: \<open>predict\<close> maps the rows of \<open>x\<close> to the rows
  of \<open>model.predict(x)[0]\<close>, of which the loop reads the last one (\<open>IndexError\<close> if
  there is none). The line that picks \<open>y_n_hat\<close> is the parameter \<open>select\<close>, from the
  random state and the row \<open>y_n\<close> to the picked index and the next random state. The
  rest of the body is shared by both cells.
\<close>

definition loop_body ::
  "('g \<Rightarrow> 'p list \<Rightarrow> error + int \<times> 'g) \<Rightarrow> (int list list \<Rightarrow> 'p list list) \<Rightarrow>
     'g globals \<Rightarrow> error + 'g globals" where
  "loop_body select predict s =
     (let y = predict (var_x s)
      in if y = [] then Inl IndexError
         else
           (let y_n = last y
            in case select (np_random s) y_n of
                 Inl e \<Rightarrow> Inl e
               | Inr (y_n_hat, g) \<Rightarrow>
                   (case one_hot_encoding [y_n_hat] n of
                      Inl e \<Rightarrow> Inl e
                    | Inr y_n_hat_encoded \<Rightarrow>
                        (case lookup map_int_to_char y_n_hat of
                           Inl e \<Rightarrow> Inl e
                         | Inr ch \<Rightarrow>
                             Inr (s\<lparr>var_x := var_x s @ y_n_hat_encoded,
                                    var_word := var_word s @ ch,
                                    var_c := ch,
                                    np_random := g\<rparr>)))))"

text \<open>
  The \<open>while\<close> loop may run forever: its value is \<open>None\<close> when it does, \<open>Some (Inl e)\<close>
  when the body raises and \<open>Some (Inr s)\<close> when it leaves the loop in state \<open>s\<close>.
\<close>

partial_function (option) generation_loop ::
  "('g \<Rightarrow> 'p list \<Rightarrow> error + int \<times> 'g) \<Rightarrow> (int list list \<Rightarrow> 'p list list) \<Rightarrow>
     'g globals \<Rightarrow> (error + 'g globals) option" where
  "generation_loop select predict s =
     (if var_c s \<noteq> py_str ''.'' then
        (case loop_body select predict s of
           Inl e \<Rightarrow> Some (Inl e)
         | Inr s' \<Rightarrow> generation_loop select predict s')
      else Some (Inr s))"

text \<open>The three assignments at the head of either cell.\<close>

definition initialise :: "'g globals \<Rightarrow> 'g globals" where
  "initialise s = s\<lparr>var_x := [replicate (nat n) 0], var_word := [], var_c := py_str ''-''\<rparr>"

text \<open>
  The stochastic cell picks with \<open>np.random.choice(range(n), p = y_n)\<close>, the library's
  sampler, a parameter here: it reads and advances the random state.
\<close>

definition stochastic_generation ::
  "('g \<Rightarrow> 'p list \<Rightarrow> error + int \<times> 'g) \<Rightarrow> (int list list \<Rightarrow> 'p list list) \<Rightarrow>
     'g globals \<Rightarrow> (error + 'g globals) option" where
  "stochastic_generation choice predict s = generation_loop choice predict (initialise s)"

text \<open>The greedy cell picks with \<open>np.argmax(y_n)\<close> and leaves the random state alone.\<close>

definition argmax_select :: "'g \<Rightarrow> 'p::linorder list \<Rightarrow> error + int \<times> 'g" where
  "argmax_select g y_n = (case argmax y_n of Inl e \<Rightarrow> Inl e | Inr i \<Rightarrow> Inr (int i, g))"

definition greedy_generation ::
  "(int list list \<Rightarrow> 'p::linorder list list) \<Rightarrow> 'g globals \<Rightarrow> (error + 'g globals) option" where
  "greedy_generation predict s = generation_loop argmax_select predict (initialise s)"

text \<open>\<open>print(word)\<close>: what a run of a cell shows.\<close>

definition printed :: "(error + 'g globals) option \<Rightarrow> (error + str) option" where
  "printed r = map_option (map_sum id var_word) r"

section \<open>Notions used in the statements\<close>

text \<open>
  \<open>iterations k\<close> is the state after the loop body has run \<open>k\<close> times from \<open>s\<close>,
  or the exception one of these runs has raised. A state \<open>stops\<close> the loop when the
  symbol chosen last is the END marker; an exception stops it as well.
\<close>

fun iterations ::
  "nat \<Rightarrow> ('g \<Rightarrow> 'p list \<Rightarrow> error + int \<times> 'g) \<Rightarrow> (int list list \<Rightarrow> 'p list list) \<Rightarrow>
     'g globals \<Rightarrow> error + 'g globals" where
  "iterations 0 select predict s = Inr s"
| "iterations (Suc k) select predict s =
     (case loop_body select predict s of
        Inl e \<Rightarrow> Inl e
      | Inr s' \<Rightarrow> iterations k select predict s')"

definition stops :: "error + 'g globals \<Rightarrow> bool" where
  "stops r = (case r of Inl e \<Rightarrow> True | Inr s \<Rightarrow> var_c s = py_str ''.'')"

text \<open>
  Three stand-ins for the trained network and the random generator, for concrete runs.
  \<open>uniform_model\<close> predicts the uniform distribution at every timestep.
  \<open>short_model\<close> puts all probability on \<open>a\<close> at the first step, on \<open>b\<close> at the
  second and on the END marker from the third step on. \<open>replay_choice\<close> is a random
  generator whose state is the list of the indices it is going to draw.
\<close>

definition uniform_model :: "int list list \<Rightarrow> real list list" where
  "uniform_model x = map (\<lambda>row. replicate 39 (1 / 39)) x"

definition short_model :: "int list list \<Rightarrow> real list list" where
  "short_model x =
     map (\<lambda>row. (replicate 39 0)[(if length x = 1 then 0 else if length x = 2 then 1 else 37) := 1]) x"

definition replay_choice :: "int list \<Rightarrow> real list \<Rightarrow> error + int \<times> int list" where
  "replay_choice g p = (case g of [] \<Rightarrow> Inl ValueError | i # g' \<Rightarrow> Inr (i, g'))"

definition fresh_kernel :: "unit globals" where
  "fresh_kernel = \<lparr>var_x = [], var_word = [], var_c = [], np_random = ()\<rparr>"

text \<open>
  The tensors as the specification describes them. \<open>spec_one_hot_row V k\<close> is the
  row of width \<open>V\<close> with a single 1 at index \<open>k\<close> and 0 elsewhere, \<open>spec_index c\<close> the
  position of the symbol \<open>c\<close> in the alphabet, and \<open>spec_one_hot_rows\<close> the one-hot rows
  of a sequence of symbols, one row per symbol.
\<close>

definition spec_one_hot_row :: "nat \<Rightarrow> nat \<Rightarrow> int list" where
  "spec_one_hot_row V k = map (\<lambda>j. if j = k then 1 else 0) [0..<V]"

definition spec_index :: "codepoint \<Rightarrow> nat" where
  "spec_index c = length (takeWhile (\<lambda>s. s \<noteq> [c]) chars)"

definition spec_one_hot_rows :: "str \<Rightarrow> int list list" where
  "spec_one_hot_rows symbols = map (\<lambda>c. spec_one_hot_row 39 (spec_index c)) symbols"

section \<open>The alphabet and the character codec\<close>

lemma update_fresh: "k \<notin> fst ` set d \<Longrightarrow> AList.update k v d = d @ [(k, v)]"
  by (induction d) auto

lemma fold_update_distinct:
  "distinct (map fst (d @ kvs)) \<Longrightarrow> fold (\<lambda>(k, v) d. AList.update k v d) kvs d = d @ kvs"
proof (induction kvs arbitrary: d)
  case Nil
  then show ?case by simp
next
  case (Cons kv kvs)
  obtain k v where kv: "kv = (k, v)" by (cases kv)
  from Cons.prems have fresh: "k \<notin> fst ` set d" by (auto simp: kv)
  from Cons.prems have "distinct (map fst ((d @ [(k, v)]) @ kvs))" by (simp add: kv)
  from Cons.IH [OF this] show ?case by (simp add: kv update_fresh [OF fresh])
qed

lemma dict_distinct: "distinct (map fst kvs) \<Longrightarrow> dict kvs = kvs"
  using fold_update_distinct [of "[]" kvs] by (simp add: dict_def)

lemma chars_eq:
  "chars = [[97], [98], [99], [100], [101], [102], [103], [104], [105], [106], [107],
  [108], [109], [110], [111], [112], [113], [114], [115], [116], [117],
  [118], [119], [120], [121], [122], [224], [225], [232], [233], [237],
  [242], [243], [250], [241], [231], [39], [46], [32]]"
  by (simp add: chars_def standard_chars_def special_chars_def py_str_def upt_rec)

lemma length_chars: "length chars = 39"
  by (simp add: chars_eq)

lemma distinct_chars: "distinct chars"
  by (simp add: chars_eq)

lemma length_seq: "length seq = 39"
  by (simp add: seq_def length_chars)

lemma distinct_seq: "distinct seq"
  by (simp add: seq_def distinct_map inj_on_def)

lemma set_seq: "set seq = {0..<39}"
  by (simp add: seq_def length_chars image_int_atLeastLessThan)

lemma map_char_to_int_eq: "map_char_to_int = zip chars seq"
  unfolding map_char_to_int_def
  by (rule dict_distinct) (simp add: length_chars length_seq distinct_chars)

lemma map_int_to_char_eq: "map_int_to_char = zip seq chars"
  unfolding map_int_to_char_def
  by (rule dict_distinct) (simp add: length_chars length_seq distinct_seq)

lemma n_eq: "n = 39"
  by (simp add: n_def map_char_to_int_eq length_chars length_seq)

lemma seq_nth: "i < 39 \<Longrightarrow> seq ! i = int i"
  by (simp add: seq_def length_chars)

lemma char_to_int_nth: "i < 39 \<Longrightarrow> map_of map_char_to_int (chars ! i) = Some (int i)"
  using map_of_zip_nth [of chars seq i]
  by (simp add: map_char_to_int_eq length_chars length_seq distinct_chars seq_nth)

lemma int_to_char_nth: "i < 39 \<Longrightarrow> map_of map_int_to_char (int i) = Some (chars ! i)"
  using map_of_zip_nth [of seq chars i]
  by (simp add: map_int_to_char_eq length_chars length_seq distinct_seq seq_nth)

lemma int_to_char_in_range:
  "0 \<le> i \<Longrightarrow> i < 39 \<Longrightarrow> map_of map_int_to_char i = Some (chars ! nat i)"
  using int_to_char_nth [of "nat i"] by simp

lemma int_to_char_out_of_range:
  "\<not> (0 \<le> i \<and> i < 39) \<Longrightarrow> map_of map_int_to_char i = None"
  using map_of_zip_is_None [of seq chars i]
  by (simp add: map_int_to_char_eq length_chars length_seq set_seq)

lemma char_to_int_unknown: "s \<notin> set chars \<Longrightarrow> map_of map_char_to_int s = None"
  using map_of_zip_is_None [of chars seq s]
  by (simp add: map_char_to_int_eq length_chars length_seq)

lemma char_to_int_known:
  "s \<in> set chars \<Longrightarrow> \<exists>i<39. s = chars ! i \<and> map_of map_char_to_int s = Some (int i)"
  using char_to_int_nth by (auto simp: in_set_conv_nth length_chars)


lemma decode_word_loop_eq:
  "decode_word_loop word_int mapping word =
     word @ concat (map (\<lambda>i. case map_of mapping i of Some s \<Rightarrow> s | None \<Rightarrow> py_str ''UNK'') word_int)"
  by (induction word_int arbitrary: word) (auto split: option.splits)

lemma decode_int_to_word_eq:
  "decode_int_to_word word_int mapping =
     concat (map (\<lambda>i. case map_of mapping i of Some s \<Rightarrow> s | None \<Rightarrow> py_str ''UNK'') word_int)"
  by (simp add: decode_int_to_word_def decode_word_loop_eq)

lemma encode_word_loop_ok:
  "\<forall>c \<in> set cs. map_of mapping [c] \<noteq> None \<Longrightarrow> length word_int = j + length cs \<Longrightarrow>
     encode_word_loop (enumerate j cs) mapping word_int =
       Inr (take j word_int @ map (\<lambda>c. the (map_of mapping [c])) cs)"
proof (induction cs arbitrary: j word_int)
  case Nil
  then show ?case by simp
next
  case (Cons c cs)
  from Cons.prems obtain v where v: "map_of mapping [c] = Some v" by auto
  have "encode_word_loop (enumerate (Suc j) cs) mapping (word_int[j := v]) =
          Inr (take (Suc j) (word_int[j := v]) @ map (\<lambda>c. the (map_of mapping [c])) cs)"
    using Cons.prems by (intro Cons.IH) auto
  moreover have "take (Suc j) (word_int[j := v]) = take j word_int @ [v]"
    using Cons.prems by (simp add: take_Suc_conv_app_nth)
  ultimately show ?case by (simp add: v)
qed

lemma encode_word_loop_fail:
  "\<exists>c \<in> set cs. map_of mapping [c] = None \<Longrightarrow>
     encode_word_loop (enumerate j cs) mapping word_int = Inl KeyError"
  by (induction cs arbitrary: j word_int) (auto split: option.splits)

lemma encode_word_to_int_eq:
  "encode_word_to_int word mapping =
     (if \<forall>c \<in> set word. map_of mapping [c] \<noteq> None
      then Inr (map (\<lambda>c. the (map_of mapping [c])) word) else Inl KeyError)"
  using encode_word_loop_ok [of word mapping "replicate (length word) 0" 0]
    encode_word_loop_fail [of word mapping 0 "replicate (length word) 0"]
  by (auto simp: encode_word_to_int_def)

lemma seq_eq:
  "seq = [0, 1, 2, 3, 4, 5, 6, 7, 8, 9, 10, 11, 12, 13, 14, 15, 16, 17, 18, 19, 20, 21, 22,
     23, 24, 25, 26, 27, 28, 29, 30, 31, 32, 33, 34, 35, 36, 37, 38]"
  by (simp add: seq_def length_chars upt_rec)

lemma lookup_char_to_int: "s \<in> set chars \<Longrightarrow> \<exists>i<39. s = chars ! i \<and> lookup map_char_to_int s = Inr (int i)"
  using char_to_int_known [of s] by (auto simp: lookup_def)

lemma lookup_int_to_char:
  "lookup map_int_to_char i = (if 0 \<le> i \<and> i < 39 then Inr (chars ! nat i) else Inl KeyError)"
  by (simp add: lookup_def int_to_char_in_range int_to_char_out_of_range)

lemma chars_nth_single: "i < 39 \<Longrightarrow> \<exists>c. chars ! i = [c]"
proof -
  have "\<forall>s \<in> set chars. \<exists>c. s = [c]" by (simp add: chars_eq)
  then show "i < 39 \<Longrightarrow> \<exists>c. chars ! i = [c]" by (simp add: length_chars)
qed

lemma decode_encoded_word:
  assumes "\<forall>c \<in> set word. [c] \<in> set chars"
  shows "decode_int_to_word (map (\<lambda>c. the (map_of map_char_to_int [c])) word) map_int_to_char = word"
  using assms
proof (induction word)
  case Nil
  then show ?case by (simp add: decode_int_to_word_eq)
next
  case (Cons c word)
  from Cons.prems obtain i where i: "i < 39" "[c] = chars ! i" "map_of map_char_to_int [c] = Some (int i)"
    using char_to_int_known [of "[c]"] by auto
  from Cons have "decode_int_to_word (map (\<lambda>c. the (map_of map_char_to_int [c])) word) map_int_to_char = word"
    by simp
  then show ?case using i by (simp add: decode_int_to_word_eq int_to_char_nth)
qed

lemma encode_decoded_word:
  assumes "\<forall>i \<in> set word_int. 0 \<le> i \<and> i < 39"
  shows "encode_word_to_int (decode_int_to_word word_int map_int_to_char) map_char_to_int = Inr word_int"
  using assms
proof (induction word_int)
  case Nil
  then show ?case by (simp add: decode_int_to_word_eq encode_word_to_int_eq)
next
  case (Cons i word_int)
  from Cons.prems have r: "0 \<le> i" "i < 39" by auto
  then have ni: "nat i < 39" by arith
  then obtain c where c: "chars ! nat i = [c]" using chars_nth_single [of "nat i"] by auto
  have l: "map_of map_char_to_int [c] = Some i"
    using char_to_int_nth [OF ni] r c by simp
  from Cons have "encode_word_to_int (decode_int_to_word word_int map_int_to_char) map_char_to_int = Inr word_int"
    by simp
  then show ?case using r c l
    by (simp add: decode_int_to_word_eq encode_word_to_int_eq int_to_char_in_range split: if_splits)
qed

lemma known_iff: "map_of map_char_to_int s \<noteq> None \<longleftrightarrow> s \<in> set chars"
proof (cases "s \<in> set chars")
  case True
  then show ?thesis using char_to_int_known [of s] by auto
next
  case False
  then show ?thesis by (simp add: char_to_int_unknown)
qed

lemma unknown_iff: "map_of map_char_to_int s = None \<longleftrightarrow> s \<notin> set chars"
  using known_iff [of s] by blast

lemma encode_word_to_int_chars:
  "encode_word_to_int word map_char_to_int =
     (if \<forall>c \<in> set word. [c] \<in> set chars
      then Inr (map (\<lambda>c. the (map_of map_char_to_int [c])) word) else Inl KeyError)"
  by (simp add: encode_word_to_int_eq unknown_iff)

lemma encode_word_to_int_append:
  "encode_word_to_int (u @ v) mapping =
     (case encode_word_to_int u mapping of
        Inl e \<Rightarrow> Inl e
      | Inr a \<Rightarrow> (case encode_word_to_int v mapping of Inl e \<Rightarrow> Inl e | Inr b \<Rightarrow> Inr (a @ b)))"
  by (auto simp: encode_word_to_int_eq)

lemma decode_int_to_word_append:
  "decode_int_to_word (a @ b) mapping = decode_int_to_word a mapping @ decode_int_to_word b mapping"
  by (simp add: decode_int_to_word_eq)

text \<open>
  Claim C5. The alphabet has 39 distinct symbols. Looking a symbol of the alphabet up in
  \<open>map_char_to_int\<close> gives an index in \<open>[0, 39)\<close> that \<open>map_int_to_char\<close> maps back to
  the symbol, and looking an index of \<open>[0, 39)\<close> up in \<open>map_int_to_char\<close> gives a symbol
  that \<open>map_char_to_int\<close> maps back to the index. The same holds for whole words under
  \<open>encode_word_to_int\<close> and \<open>decode_int_to_word\<close>, which work character by character:
  the code of a concatenation is the concatenation of the codes.
\<close>

theorem codec_round_trip:
  "length chars = 39 \<and> distinct chars
   \<and> (\<forall>s \<in> set chars. \<exists>i. lookup map_char_to_int s = Inr i \<and> 0 \<le> i \<and> i < 39
          \<and> lookup map_int_to_char i = Inr s)
   \<and> (\<forall>i. 0 \<le> i \<and> i < 39 \<longrightarrow>
          (\<exists>s. lookup map_int_to_char i = Inr s \<and> s \<in> set chars \<and> lookup map_char_to_int s = Inr i))
   \<and> ((\<forall>c \<in> set word. [c] \<in> set chars) \<longrightarrow>
          (\<exists>is. encode_word_to_int word map_char_to_int = Inr is
             \<and> decode_int_to_word is map_int_to_char = word))
   \<and> ((\<forall>i \<in> set word_int. 0 \<le> i \<and> i < 39) \<longrightarrow>
          (\<exists>w. decode_int_to_word word_int map_int_to_char = w
             \<and> encode_word_to_int w map_char_to_int = Inr word_int))
   \<and> encode_word_to_int (u @ v) map_char_to_int =
        (case encode_word_to_int u map_char_to_int of
           Inl e \<Rightarrow> Inl e
         | Inr a \<Rightarrow> (case encode_word_to_int v map_char_to_int of
                       Inl e \<Rightarrow> Inl e
                     | Inr b \<Rightarrow> Inr (a @ b)))
   \<and> decode_int_to_word (a @ b) map_int_to_char =
        decode_int_to_word a map_int_to_char @ decode_int_to_word b map_int_to_char"
proof -
  have p1: "\<forall>s \<in> set chars. \<exists>i. lookup map_char_to_int s = Inr i \<and> 0 \<le> i \<and> i < 39
          \<and> lookup map_int_to_char i = Inr s"
  proof
    fix s assume "s \<in> set chars"
    then obtain i where "i < 39" "s = chars ! i" "lookup map_char_to_int s = Inr (int i)"
      using lookup_char_to_int by blast
    then show "\<exists>i. lookup map_char_to_int s = Inr i \<and> 0 \<le> i \<and> i < 39 \<and> lookup map_int_to_char i = Inr s"
      by (intro exI [of _ "int i"]) (simp add: lookup_int_to_char)
  qed
  have p2: "\<forall>i. 0 \<le> i \<and> i < 39 \<longrightarrow>
          (\<exists>s. lookup map_int_to_char i = Inr s \<and> s \<in> set chars \<and> lookup map_char_to_int s = Inr i)"
  proof (intro allI impI)
    fix i :: int assume r: "0 \<le> i \<and> i < 39"
    then have ni: "nat i < 39" by arith
    have "lookup map_char_to_int (chars ! nat i) = Inr i"
      using char_to_int_nth [OF ni] r by (simp add: lookup_def)
    moreover have "chars ! nat i \<in> set chars"
      using ni by (simp add: length_chars)
    ultimately show "\<exists>s. lookup map_int_to_char i = Inr s \<and> s \<in> set chars \<and> lookup map_char_to_int s = Inr i"
      using r by (simp add: lookup_int_to_char)
  qed
  have p3: "(\<forall>c \<in> set word. [c] \<in> set chars) \<longrightarrow>
          (\<exists>is. encode_word_to_int word map_char_to_int = Inr is
             \<and> decode_int_to_word is map_int_to_char = word)"
    by (simp add: encode_word_to_int_chars decode_encoded_word)
  have p4: "(\<forall>i \<in> set word_int. 0 \<le> i \<and> i < 39) \<longrightarrow>
          (\<exists>w. decode_int_to_word word_int map_int_to_char = w
             \<and> encode_word_to_int w map_char_to_int = Inr word_int)"
    by (simp add: encode_decoded_word)
  show ?thesis
    using p1 p2 p3 p4 length_chars distinct_chars
      encode_word_to_int_append [of u v map_char_to_int]
      decode_int_to_word_append [of a b map_int_to_char]
    by blast
qed

theorem codec_round_trip_witness:
  "py_str ''a'' \<in> set chars
   \<and> lookup map_char_to_int (py_str ''a'') = Inr 0 \<and> lookup map_int_to_char 0 = Inr (py_str ''a'')
   \<and> encode_word_to_int (py_str ''jose'') map_char_to_int = Inr [9, 14, 18, 4]
   \<and> decode_int_to_word [9, 14, 18, 4] map_int_to_char = py_str ''jose''"
  using codec_round_trip [of "py_str ''jose''" "[9, 14, 18, 4]" "[]" "[]" "[]" "[]"]
  by (simp add: py_str_def chars_eq seq_eq lookup_def map_char_to_int_eq map_int_to_char_eq
      encode_word_to_int_eq decode_int_to_word_eq)

text \<open>
  Claim C4, as the code has it. \<open>decode_int_to_word\<close> never fails: an index of
  \<open>[0, n)\<close> is decoded to its symbol, and for every index outside that range the
  placeholder string \<open>UNK\<close> is appended instead.
\<close>

theorem decode_substitutes_placeholder:
  "(0 \<le> i \<and> i < n \<longrightarrow> decode_int_to_word [i] map_int_to_char = chars ! nat i)
   \<and> (\<not> (0 \<le> i \<and> i < n) \<longrightarrow> decode_int_to_word [i] map_int_to_char = py_str ''UNK'')"
  by (simp add: decode_int_to_word_eq n_eq int_to_char_in_range int_to_char_out_of_range)

theorem decode_substitutes_placeholder_witness:
  "decode_int_to_word [3] map_int_to_char = py_str ''d''
   \<and> decode_int_to_word [40] map_int_to_char = py_str ''UNK''
   \<and> decode_int_to_word [- 1] map_int_to_char = py_str ''UNK''"
  using decode_substitutes_placeholder [of 3] decode_substitutes_placeholder [of 40]
    decode_substitutes_placeholder [of "- 1"]
  by (simp add: n_eq chars_eq py_str_def)

text \<open>
  The claim as stated asks for a failure on an unknown index; index 39, the first one
  outside the alphabet, is decoded to the placeholder.
\<close>

theorem decode_unknown_index_counterexample:
  "decode_int_to_word [39] map_int_to_char = py_str ''UNK''"
  by (simp add: decode_int_to_word_eq int_to_char_out_of_range)

section \<open>One-hot encoding and decoding\<close>

lemma one_hot_encoding_single:
  "one_hot_encoding [i] w =
     (if w < 0 then Inl ValueError
      else if - w \<le> i \<and> i < w
        then Inr [(replicate (nat w) 0)[nat (if i < 0 then w + i else i) := 1]]
        else if i < - (2 ^ 63) \<or> 2 ^ 63 \<le> i then Inl OverflowError
        else Inl IndexError)"
  by (auto simp: one_hot_encoding_def set_item_def Let_def)

lemma argmax_from_spec:
  assumes "bi < length pre" "pre ! bi = best" "\<forall>v \<in> set pre. v \<le> best" "\<forall>j<bi. pre ! j < best"
  shows "argmax_from vs (length pre) best bi < length (pre @ vs)
     \<and> (\<forall>v \<in> set (pre @ vs). v \<le> (pre @ vs) ! argmax_from vs (length pre) best bi)
     \<and> (\<forall>j < argmax_from vs (length pre) best bi.
           (pre @ vs) ! j < (pre @ vs) ! argmax_from vs (length pre) best bi)"
  using assms
proof (induction vs arbitrary: pre best bi)
  case Nil
  then show ?case by simp
next
  case (Cons v vs)
  show ?case
  proof (cases "best < v")
    case True
    have "argmax_from vs (length (pre @ [v])) v (length pre) < length ((pre @ [v]) @ vs)
      \<and> (\<forall>u \<in> set ((pre @ [v]) @ vs). u \<le> ((pre @ [v]) @ vs) ! argmax_from vs (length (pre @ [v])) v (length pre))
      \<and> (\<forall>j < argmax_from vs (length (pre @ [v])) v (length pre).
           ((pre @ [v]) @ vs) ! j < ((pre @ [v]) @ vs) ! argmax_from vs (length (pre @ [v])) v (length pre))"
    proof (rule Cons.IH)
      show "length pre < length (pre @ [v])" by simp
      show "(pre @ [v]) ! length pre = v" by simp
      show "\<forall>u \<in> set (pre @ [v]). u \<le> v" using Cons.prems(3) True by auto
      show "\<forall>j<length pre. (pre @ [v]) ! j < v"
      proof (intro allI impI)
        fix j assume j: "j < length pre"
        then have "pre ! j \<le> best" using Cons.prems(3) by simp
        with True j show "(pre @ [v]) ! j < v" by (simp add: nth_append)
      qed
    qed
    with True show ?thesis by simp
  next
    case False
    have "argmax_from vs (length (pre @ [v])) best bi < length ((pre @ [v]) @ vs)
      \<and> (\<forall>u \<in> set ((pre @ [v]) @ vs). u \<le> ((pre @ [v]) @ vs) ! argmax_from vs (length (pre @ [v])) best bi)
      \<and> (\<forall>j < argmax_from vs (length (pre @ [v])) best bi.
           ((pre @ [v]) @ vs) ! j < ((pre @ [v]) @ vs) ! argmax_from vs (length (pre @ [v])) best bi)"
    proof (rule Cons.IH)
      show "bi < length (pre @ [v])" using Cons.prems(1) by simp
      show "(pre @ [v]) ! bi = best" using Cons.prems(1,2) by (simp add: nth_append)
      show "\<forall>u \<in> set (pre @ [v]). u \<le> best" using Cons.prems(3) False by auto
      show "\<forall>j<bi. (pre @ [v]) ! j < best" using Cons.prems(1,4) by (simp add: nth_append)
    qed
    with False show ?thesis by simp
  qed
qed

lemma argmax_spec:
  assumes "row \<noteq> []"
  shows "\<exists>i. argmax row = Inr i \<and> i < length row \<and> (\<forall>v \<in> set row. v \<le> row ! i)
           \<and> (\<forall>j<i. row ! j < row ! i)"
proof -
  from assms obtain v vs where row: "row = v # vs" by (cases row) auto
  have "argmax_from vs (length [v]) v 0 < length ([v] @ vs)
     \<and> (\<forall>u \<in> set ([v] @ vs). u \<le> ([v] @ vs) ! argmax_from vs (length [v]) v 0)
     \<and> (\<forall>j < argmax_from vs (length [v]) v 0. ([v] @ vs) ! j < ([v] @ vs) ! argmax_from vs (length [v]) v 0)"
    by (rule argmax_from_spec) simp_all
  then show ?thesis by (simp add: row argmax_def)
qed

lemma first_max_unique:
  fixes row :: "'a::linorder list"
  assumes "i < length row" "\<forall>v \<in> set row. v \<le> row ! i" "\<forall>j<i. row ! j < row ! i"
    and "k < length row" "\<forall>v \<in> set row. v \<le> row ! k" "\<forall>j<k. row ! j < row ! k"
  shows "i = k"
proof (rule ccontr)
  assume "i \<noteq> k"
  then consider "i < k" | "k < i" by arith
  then show False
  proof cases
    case 1
    with assms(6) have "row ! i < row ! k" by simp
    moreover from assms(2,4) have "row ! k \<le> row ! i" by simp
    ultimately show False by simp
  next
    case 2
    with assms(3) have "row ! k < row ! i" by simp
    moreover from assms(5,1) have "row ! i \<le> row ! k" by simp
    ultimately show False by simp
  qed
qed

lemma argmax_peak:
  assumes "k < w" "lo < hi"
  shows "argmax ((replicate w lo)[k := hi]) = Inr k"
proof -
  let ?row = "(replicate w lo)[k := hi]"
  from assms have ne: "?row \<noteq> []" by auto
  from argmax_spec [OF ne] obtain i where i: "argmax ?row = Inr i" "i < length ?row"
    "\<forall>v \<in> set ?row. v \<le> ?row ! i" "\<forall>j<i. ?row ! j < ?row ! i" by blast
  have k1: "k < length ?row" using assms by simp
  have k2: "\<forall>v \<in> set ?row. v \<le> ?row ! k"
    using assms by (auto simp: in_set_conv_nth nth_list_update less_imp_le)
  have k3: "\<forall>j<k. ?row ! j < ?row ! k" using assms by (simp add: nth_list_update)
  from first_max_unique [OF i(2,3,4) k1 k2 k3] i(1) show ?thesis by simp
qed

lemma argmax_one_hot:
  assumes "k < w"
  shows "argmax ((replicate w (0::int))[k := 1]) = Inr k"
  using argmax_peak [of k w "0::int" 1] assms by simp

lemma argmax_constant:
  assumes "0 < w"
  shows "argmax (replicate w v) = Inr 0"
proof -
  let ?row = "replicate w v"
  from assms have ne: "?row \<noteq> []" by auto
  from argmax_spec [OF ne] obtain i where i: "argmax ?row = Inr i" "i < length ?row"
    "\<forall>j<i. ?row ! j < ?row ! i" by blast
  have "i = 0"
  proof (rule ccontr)
    assume "i \<noteq> 0"
    with i(2,3) have "?row ! 0 < ?row ! i" by simp
    with i(2) assms show False by simp
  qed
  with i(1) show ?thesis by simp
qed

lemma argmax_zeros:
  assumes "0 < w"
  shows "argmax (replicate w (0::int)) = Inr 0"
  using assms by (rule argmax_constant)

lemma one_hot_decoding_single:
  "one_hot_decoding [row] = (case argmax row of Inl e \<Rightarrow> Inl e | Inr pos \<Rightarrow> Inr [int pos])"
  by (simp add: one_hot_decoding_def split: sum.splits)

text \<open>
  Claim C6. For every index \<open>k\<close> with \<open>0 \<le> k < V\<close>, \<open>one_hot_encoding [k] V\<close> succeeds
  and \<open>one_hot_decoding\<close> of its result is \<open>[k]\<close>. Decoding a row returns a position
  that holds the greatest value of the row, and every position before it holds a
  smaller value: among equal greatest values the lowest index wins.
\<close>

theorem one_hot_round_trip:
  "(0 \<le> k \<and> k < V \<longrightarrow> (\<exists>e. one_hot_encoding [k] V = Inr e \<and> one_hot_decoding e = Inr [k]))
   \<and> (row \<noteq> [] \<longrightarrow>
        (\<exists>i. one_hot_decoding [row] = Inr [int i] \<and> i < length row
           \<and> (\<forall>v \<in> set row. v \<le> row ! i) \<and> (\<forall>j<i. row ! j < row ! i)))"
proof (intro conjI impI)
  assume r: "0 \<le> k \<and> k < V"
  then have "nat k < nat V" by arith
  from argmax_one_hot [OF this] r
  show "\<exists>e. one_hot_encoding [k] V = Inr e \<and> one_hot_decoding e = Inr [k]"
    by (simp add: one_hot_encoding_single one_hot_decoding_single)
next
  assume "row \<noteq> []"
  from argmax_spec [OF this]
  show "\<exists>i. one_hot_decoding [row] = Inr [int i] \<and> i < length row
           \<and> (\<forall>v \<in> set row. v \<le> row ! i) \<and> (\<forall>j<i. row ! j < row ! i)"
    by (auto simp: one_hot_decoding_single)
qed

theorem one_hot_round_trip_witness:
  "one_hot_encoding [2] 5 = Inr [[0, 0, 1, 0, 0]]
   \<and> one_hot_decoding [[0, 0, 1, 0, 0 :: int]] = Inr [2]
   \<and> one_hot_decoding [[1, 3, 3, 2 :: int]] = Inr [1]"
  using one_hot_round_trip [of 2 5 "[1, 3, 3, 2 :: int]"]
  by (simp add: one_hot_encoding_single one_hot_decoding_single argmax_def eval_nat_numeral)

text \<open>
  Claim C9. Decoding an all-zero row of any positive width gives index 0, the same index
  as decoding the one-hot row of index 0, which is another row; index 0 is the symbol
  \<open>a\<close>.
\<close>

theorem padding_row_decodes_to_index_0:
  "0 < w \<Longrightarrow>
     one_hot_decoding [replicate w (0::int)] = Inr [0]
     \<and> (\<exists>e. one_hot_encoding [0] (int w) = Inr e \<and> e \<noteq> [replicate w 0]
            \<and> one_hot_decoding e = one_hot_decoding [replicate w (0::int)])
     \<and> lookup map_int_to_char 0 = Inr (py_str ''a'')"
proof -
  assume w: "0 < w"
  have z: "one_hot_decoding [replicate w (0::int)] = Inr [0]"
    using argmax_zeros [OF w] by (simp add: one_hot_decoding_single)
  have e: "one_hot_encoding [0] (int w) = Inr [(replicate w 0)[0 := 1]]"
    using w by (simp add: one_hot_encoding_single)
  have d: "one_hot_decoding [(replicate w (0::int))[0 := 1]] = Inr [0]"
    using argmax_one_hot [OF w] by (simp add: one_hot_decoding_single)
  have ne: "[(replicate w (0::int))[0 := 1]] \<noteq> [replicate w 0]"
  proof
    assume "[(replicate w (0::int))[0 := 1]] = [replicate w 0]"
    then have "(replicate w (0::int))[0 := 1] ! 0 = replicate w 0 ! 0" by simp
    with w show False by simp
  qed
  have a: "lookup map_int_to_char 0 = Inr (py_str ''a'')"
    by (simp add: lookup_int_to_char chars_eq py_str_def)
  from z e d ne a show ?thesis by simp
qed

theorem padding_row_decodes_to_index_0_witness:
  "(0::nat) < 39 \<and> one_hot_decoding [replicate 39 (0::int)] = Inr [0]
   \<and> lookup map_int_to_char 0 = Inr (py_str ''a'')"
  using padding_row_decodes_to_index_0 [of 39] by simp




section \<open>The generation loop\<close>

lemma generation_loop_stops_at:
  "stops (iterations k select predict s) \<Longrightarrow> \<forall>j<k. \<not> stops (iterations j select predict s) \<Longrightarrow>
     generation_loop select predict s = Some (iterations k select predict s)"
proof (induction k arbitrary: s)
  case 0
  then show ?case by (simp add: stops_def generation_loop.simps)
next
  case (Suc k)
  from Suc.prems(2) have "\<not> stops (iterations 0 select predict s)" by blast
  then have c: "var_c s \<noteq> py_str ''.''" by (simp add: stops_def)
  show ?case
  proof (cases "loop_body select predict s")
    case (Inl e)
    with c show ?thesis by (simp add: generation_loop.simps)
  next
    case (Inr s')
    have 1: "stops (iterations k select predict s')" using Suc.prems(1) Inr by simp
    have 2: "\<forall>j<k. \<not> stops (iterations j select predict s')"
    proof (intro allI impI)
      fix j assume "j < k"
      then have "Suc j < Suc k" by simp
      with Suc.prems(2) have "\<not> stops (iterations (Suc j) select predict s)" by blast
      then show "\<not> stops (iterations j select predict s')" using Inr by simp
    qed
    from Suc.IH [OF 1 2] c Inr show ?thesis by (simp add: generation_loop.simps)
  qed
qed

lemma generation_loop_Some_stops:
  assumes "generation_loop select predict s = Some r"
  shows "\<exists>k. stops (iterations k select predict s)"
proof (rule generation_loop.raw_induct
    [where P = "\<lambda>select predict s r. \<exists>k. stops (iterations k select predict s)", OF _ assms])
  fix loop select predict s r
  assume IH: "\<And>select predict s r. loop select predict s = Some r \<Longrightarrow>
      \<exists>k. stops (iterations k select predict s)"
    and eq: "(if var_c s \<noteq> py_str ''.'' then
        (case loop_body select predict s of
           Inl e \<Rightarrow> Some (Inl e)
         | Inr s' \<Rightarrow> loop select predict s')
      else Some (Inr s)) = Some r"
  show "\<exists>k. stops (iterations k select predict s)"
  proof (cases "var_c s \<noteq> py_str ''.''")
    case False
    then have "stops (iterations 0 select predict s)" by (simp add: stops_def)
    then show ?thesis by blast
  next
    case True
    show ?thesis
    proof (cases "loop_body select predict s")
      case (Inl e)
      then have "stops (iterations (Suc 0) select predict s)" by (simp add: stops_def)
      then show ?thesis by blast
    next
      case (Inr s')
      with True eq have "loop select predict s' = Some r" by simp
      from IH [OF this] obtain k where "stops (iterations k select predict s')" by blast
      with Inr have "stops (iterations (Suc k) select predict s)" by simp
      then show ?thesis by blast
    qed
  qed
qed

lemma generation_loop_eq:
  "generation_loop select predict s =
     (if \<exists>k. stops (iterations k select predict s)
      then Some (iterations (LEAST k. stops (iterations k select predict s)) select predict s)
      else None)"
proof (cases "\<exists>k. stops (iterations k select predict s)")
  case True
  then obtain k where k: "stops (iterations k select predict s)" by blast
  let ?m = "LEAST k. stops (iterations k select predict s)"
  have 1: "stops (iterations ?m select predict s)" using k by (rule LeastI)
  have 2: "\<forall>j<?m. \<not> stops (iterations j select predict s)"
    using not_less_Least by blast
  from generation_loop_stops_at [OF 1 2] True show ?thesis by simp
next
  case False
  then have "generation_loop select predict s = None"
    using generation_loop_Some_stops [of select predict s] by (cases "generation_loop select predict s") auto
  with False show ?thesis by simp
qed

lemma loop_body_Inr:
  assumes "loop_body select predict s = Inr s'"
  shows "\<exists>i g c0. predict (var_x s) \<noteq> []
           \<and> select (np_random s) (last (predict (var_x s))) = Inr (i, g)
           \<and> 0 \<le> i \<and> i < 39 \<and> chars ! nat i = [c0]
           \<and> s' = s\<lparr>var_x := var_x s @ [(replicate 39 0)[nat i := 1]],
                    var_word := var_word s @ [c0], var_c := [c0], np_random := g\<rparr>"
proof -
  from assms have ne: "predict (var_x s) \<noteq> []"
    by (auto simp: loop_body_def Let_def split: if_splits)
  from assms ne obtain i g where sel: "select (np_random s) (last (predict (var_x s))) = Inr (i, g)"
    by (auto simp: loop_body_def Let_def split: sum.splits)
  from assms ne sel obtain e where e: "one_hot_encoding [i] n = Inr e"
    by (auto simp: loop_body_def Let_def split: sum.splits)
  from assms ne sel e obtain ch where ch: "lookup map_int_to_char i = Inr ch"
    by (auto simp: loop_body_def Let_def split: sum.splits)
  from ch have r: "0 \<le> i" "i < 39" "ch = chars ! nat i"
    by (auto simp: lookup_int_to_char split: if_splits)
  then have "nat i < 39" by arith
  then obtain c0 where c0: "chars ! nat i = [c0]" using chars_nth_single by blast
  from e r have e': "e = [(replicate 39 0)[nat i := 1]]"
    by (simp add: one_hot_encoding_single n_eq)
  from assms ne sel e ch have "s' = s\<lparr>var_x := var_x s @ e, var_word := var_word s @ ch, var_c := ch, np_random := g\<rparr>"
    by (simp add: loop_body_def Let_def)
  with r c0 e' ne sel show ?thesis by auto
qed

lemma loop_body_select:
  assumes "predict (var_x s) \<noteq> []" "select (np_random s) (last (predict (var_x s))) = Inr (int i, g)"
    "i < 39"
  shows "loop_body select predict s =
     Inr (s\<lparr>var_x := var_x s @ [(replicate 39 0)[i := 1]], var_word := var_word s @ chars ! i,
            var_c := chars ! i, np_random := g\<rparr>)"
  using assms by (simp add: loop_body_def Let_def one_hot_encoding_single n_eq lookup_int_to_char)

lemma loop_body_greedy:
  assumes "predict (var_x s) \<noteq> []" "argmax (last (predict (var_x s))) = Inr i" "i < 39"
  shows "loop_body argmax_select predict s =
     Inr (s\<lparr>var_x := var_x s @ [(replicate 39 0)[i := 1]], var_word := var_word s @ chars ! i,
            var_c := chars ! i, np_random := np_random s\<rparr>)"
  using assms by (intro loop_body_select) (simp_all add: argmax_select_def)

lemma iterations_Suc:
  "iterations (Suc k) select predict s =
     (case iterations k select predict s of
        Inl e \<Rightarrow> Inl e
      | Inr s' \<Rightarrow> loop_body select predict s')"
proof (induction k arbitrary: s)
  case 0
  then show ?case by (simp split: sum.splits)
next
  case (Suc k)
  show ?case
  proof (cases "loop_body select predict s")
    case (Inl e)
    then show ?thesis by simp
  next
    case (Inr s')
    have "iterations (Suc (Suc k)) select predict s = iterations (Suc k) select predict s'"
      using Inr by simp
    also have "\<dots> = (case iterations k select predict s' of
        Inl e \<Rightarrow> Inl e | Inr t \<Rightarrow> loop_body select predict t)"
      by (rule Suc.IH)
    also have "iterations k select predict s' = iterations (Suc k) select predict s"
      using Inr by simp
    finally show ?thesis .
  qed
qed

lemma iterations_word:
  assumes "iterations k select predict s = Inr t" "\<forall>j<k. \<not> stops (iterations j select predict s)"
    "var_word s = []"
  shows "length (var_word t) = k \<and> of_char CHR ''.'' \<notin> set (butlast (var_word t))
           \<and> (0 < k \<longrightarrow> var_c t = [last (var_word t)])"
  using assms(1,2)
proof (induction k arbitrary: t)
  case 0
  then show ?case using assms(3) by simp
next
  case (Suc k)
  from Suc.prems(1) obtain u where u: "iterations k select predict s = Inr u"
    and body: "loop_body select predict u = Inr t"
    by (auto simp: iterations_Suc simp del: iterations.simps split: sum.splits)
  have "\<forall>j<k. \<not> stops (iterations j select predict s)" using Suc.prems(2) by simp
  from Suc.IH [OF u this] have len: "length (var_word u) = k"
    and bl: "of_char CHR ''.'' \<notin> set (butlast (var_word u))"
    and lst: "0 < k \<longrightarrow> var_c u = [last (var_word u)]" by simp_all
  from Suc.prems(2) have "\<not> stops (iterations k select predict s)" by simp
  with u have c: "var_c u \<noteq> py_str ''.''" by (simp add: stops_def)
  have clean: "of_char CHR ''.'' \<notin> set (var_word u)"
  proof (cases "var_word u = []")
    case True
    then show ?thesis by simp
  next
    case False
    with len have "0 < k" by auto
    with lst c have "last (var_word u) \<noteq> of_char CHR ''.''" by (auto simp: py_str_def)
    moreover have "var_word u = butlast (var_word u) @ [last (var_word u)]" using False by simp
    ultimately show ?thesis using bl
      by (metis Un_iff empty_iff empty_set insert_iff list.simps(15) set_append)
  qed
  from loop_body_Inr [OF body] obtain c0 where "var_word t = var_word u @ [c0]" "var_c t = [c0]"
    by auto
  with len clean show ?case by simp
qed

lemma iterations_length:
  "iterations k select predict s = Inr t \<Longrightarrow> length (var_word t) = length (var_word s) + k"
proof (induction k arbitrary: s)
  case 0
  then show ?case by simp
next
  case (Suc k)
  then obtain s' where s': "loop_body select predict s = Inr s'" "iterations k select predict s' = Inr t"
    by (auto split: sum.splits)
  from loop_body_Inr [OF s'(1)] have "length (var_word s') = Suc (length (var_word s))" by auto
  with Suc.IH [OF s'(2)] show ?case by simp
qed

lemma generation_from_initial:
  assumes "generation_loop select predict (initialise s) = Some (Inr t)"
  shows "var_word t \<noteq> [] \<and> last (var_word t) = of_char CHR ''.''
           \<and> of_char CHR ''.'' \<notin> set (butlast (var_word t))"
proof -
  let ?s = "initialise s"
  let ?m = "LEAST k. stops (iterations k select predict ?s)"
  from assms have ex: "\<exists>k. stops (iterations k select predict ?s)"
    by (cases "\<exists>k. stops (iterations k select predict ?s)") (simp_all add: generation_loop_eq)
  with assms have t: "iterations ?m select predict ?s = Inr t"
    by (simp add: generation_loop_eq)
  from ex have st: "stops (iterations ?m select predict ?s)" by (elim exE) (rule LeastI)
  have nl: "\<forall>j<?m. \<not> stops (iterations j select predict ?s)" using not_less_Least by blast
  have "\<not> stops (iterations 0 select predict ?s)"
    by (simp add: stops_def initialise_def py_str_def)
  with st have pos: "0 < ?m" by (cases "?m = 0") auto
  have "var_word ?s = []" by (simp add: initialise_def)
  from iterations_word [OF t nl this] pos
  have len: "length (var_word t) = ?m" and bl: "of_char CHR ''.'' \<notin> set (butlast (var_word t))"
    and lst: "var_c t = [last (var_word t)]" by simp_all
  from st t have "var_c t = py_str ''.''" by (simp add: stops_def)
  with lst have "last (var_word t) = of_char CHR ''.''" by (simp add: py_str_def)
  with len pos bl show ?thesis by auto
qed

lemma loop_body_greedy_random:
  "loop_body argmax_select predict (s\<lparr>np_random := g\<rparr>) =
     map_sum id (\<lambda>t. t\<lparr>np_random := g\<rparr>) (loop_body argmax_select predict s)"
  by (simp add: loop_body_def Let_def argmax_select_def split: sum.splits)

lemma iterations_greedy_random:
  "iterations k argmax_select predict (s\<lparr>np_random := g\<rparr>) =
     map_sum id (\<lambda>t. t\<lparr>np_random := g\<rparr>) (iterations k argmax_select predict s)"
proof (induction k arbitrary: s)
  case 0
  then show ?case by simp
next
  case (Suc k)
  show ?case
  proof (cases "loop_body argmax_select predict s")
    case (Inl e)
    then show ?thesis by (simp add: loop_body_greedy_random)
  next
    case (Inr s')
    then show ?thesis by (simp add: loop_body_greedy_random Suc.IH)
  qed
qed

lemma stops_random: "stops (map_sum id (\<lambda>t. t\<lparr>np_random := g\<rparr>) r) = stops r"
  by (cases r) (simp_all add: stops_def)

lemma printed_random:
  "printed (map_option (map_sum id (\<lambda>t. t\<lparr>np_random := g\<rparr>)) r) = printed r"
proof (cases r)
  case None
  then show ?thesis by (simp add: printed_def)
next
  case (Some v)
  then show ?thesis by (cases v) (simp_all add: printed_def)
qed

lemma generation_loop_greedy_random:
  "generation_loop argmax_select predict (s\<lparr>np_random := g\<rparr>) =
     map_option (map_sum id (\<lambda>t. t\<lparr>np_random := g\<rparr>)) (generation_loop argmax_select predict s)"
  by (simp add: generation_loop_eq iterations_greedy_random stops_random)

lemma initialise_random:
  fixes s s' :: "'g globals"
  shows "initialise s' = (initialise s)\<lparr>np_random := np_random s'\<rparr>"
  by (simp add: initialise_def)

lemma uniform_model_never_stops:
  "var_x s \<noteq> [] \<Longrightarrow> var_c s \<noteq> py_str ''.'' \<Longrightarrow> \<not> stops (iterations k argmax_select uniform_model s)"
proof (induction k arbitrary: s)
  case 0
  then show ?case by (simp add: stops_def)
next
  case (Suc k)
  have ne: "uniform_model (var_x s) \<noteq> []" using Suc.prems(1) by (simp add: uniform_model_def)
  have "last (uniform_model (var_x s)) = replicate 39 (1 / 39)"
    using Suc.prems(1) by (simp add: uniform_model_def last_map)
  then have am: "argmax (last (uniform_model (var_x s))) = Inr 0"
    by (simp add: argmax_constant)
  have body: "loop_body argmax_select uniform_model s =
     Inr (s\<lparr>var_x := var_x s @ [(replicate 39 0)[0 := 1]], var_word := var_word s @ chars ! 0,
            var_c := chars ! 0, np_random := np_random s\<rparr>)"
    using ne am by (rule loop_body_greedy) simp
  have "\<not> stops (iterations k argmax_select uniform_model
     (s\<lparr>var_x := var_x s @ [(replicate 39 0)[0 := 1]], var_word := var_word s @ chars ! 0,
            var_c := chars ! 0, np_random := np_random s\<rparr>))"
    by (rule Suc.IH) (simp_all add: chars_eq py_str_def)
  with body show ?case by simp
qed

lemma greedy_generation_uniform_model: "greedy_generation uniform_model s = None"
proof -
  have "\<not> stops (iterations k argmax_select uniform_model (initialise s))" for k
    by (rule uniform_model_never_stops) (simp_all add: initialise_def py_str_def)
  then show ?thesis by (simp add: greedy_generation_def generation_loop_eq)
qed

lemma generation_loop_step:
  "var_c s \<noteq> py_str ''.'' \<Longrightarrow> loop_body select predict s = Inr s' \<Longrightarrow>
     generation_loop select predict s = generation_loop select predict s'"
  by (subst generation_loop.simps) simp

lemma generation_loop_done:
  "var_c s = py_str ''.'' \<Longrightarrow> generation_loop select predict s = Some (Inr s)"
  by (subst generation_loop.simps) simp

lemma short_model_argmax:
  "x \<noteq> [] \<Longrightarrow> short_model x \<noteq> []
     \<and> argmax (last (short_model x)) =
         Inr (if length x = 1 then 0 else if length x = 2 then 1 else 37)"
  by (simp add: short_model_def last_map argmax_peak)

lemma initialise_fresh_kernel:
  "initialise fresh_kernel =
     \<lparr>var_x = [replicate 39 0], var_word = [], var_c = py_str ''-'', np_random = ()\<rparr>"
  by (simp add: initialise_def fresh_kernel_def n_eq)

lemma short_body_0:
  "loop_body argmax_select short_model
       \<lparr>var_x = [replicate 39 0], var_word = [], var_c = py_str ''-'', np_random = ()\<rparr> =
     Inr \<lparr>var_x = [replicate 39 0, (replicate 39 0)[0 := 1]], var_word = py_str ''a'',
          var_c = py_str ''a'', np_random = ()\<rparr>"
  using loop_body_greedy [of short_model
      "\<lparr>var_x = [replicate 39 0], var_word = [], var_c = py_str ''-'', np_random = ()\<rparr>" 0]
    short_model_argmax [of "[replicate 39 0]"]
  by (simp add: chars_eq py_str_def)

lemma short_body_1:
  "loop_body argmax_select short_model
       \<lparr>var_x = [replicate 39 0, (replicate 39 0)[0 := 1]], var_word = py_str ''a'',
        var_c = py_str ''a'', np_random = ()\<rparr> =
     Inr \<lparr>var_x = [replicate 39 0, (replicate 39 0)[0 := 1], (replicate 39 0)[1 := 1]],
          var_word = py_str ''ab'', var_c = py_str ''b'', np_random = ()\<rparr>"
  using loop_body_greedy [of short_model
      "\<lparr>var_x = [replicate 39 0, (replicate 39 0)[0 := 1]], var_word = py_str ''a'',
        var_c = py_str ''a'', np_random = ()\<rparr>" 1]
    short_model_argmax [of "[replicate 39 0, (replicate 39 0)[0 := 1]]"]
  by (simp add: chars_eq py_str_def)

lemma short_body_2:
  "loop_body argmax_select short_model
       \<lparr>var_x = [replicate 39 0, (replicate 39 0)[0 := 1], (replicate 39 0)[1 := 1]],
        var_word = py_str ''ab'', var_c = py_str ''b'', np_random = ()\<rparr> =
     Inr \<lparr>var_x = [replicate 39 0, (replicate 39 0)[0 := 1], (replicate 39 0)[1 := 1],
                  (replicate 39 0)[37 := 1]],
          var_word = py_str ''ab.'', var_c = py_str ''.'', np_random = ()\<rparr>"
  using loop_body_greedy [of short_model
      "\<lparr>var_x = [replicate 39 0, (replicate 39 0)[0 := 1], (replicate 39 0)[1 := 1]],
        var_word = py_str ''ab'', var_c = py_str ''b'', np_random = ()\<rparr>" 37]
    short_model_argmax [of "[replicate 39 0, (replicate 39 0)[0 := 1], (replicate 39 0)[1 := 1]]"]
  by (simp add: chars_eq py_str_def)

lemma short_model_iterations:
  "iterations 3 argmax_select short_model (initialise fresh_kernel) =
     Inr \<lparr>var_x = [replicate 39 0, (replicate 39 0)[0 := 1], (replicate 39 0)[1 := 1],
                  (replicate 39 0)[37 := 1]],
          var_word = py_str ''ab.'', var_c = py_str ''.'', np_random = ()\<rparr>"
  by (simp only: numeral_3_eq_3 initialise_fresh_kernel iterations.simps short_body_0
      short_body_1 short_body_2 sum.case)

lemma greedy_short_model_run:
  "greedy_generation short_model fresh_kernel =
     Some (Inr \<lparr>var_x = [replicate 39 0, (replicate 39 0)[0 := 1], (replicate 39 0)[1 := 1],
                        (replicate 39 0)[37 := 1]],
                var_word = py_str ''ab.'', var_c = py_str ''.'', np_random = ()\<rparr>)"
proof -
  let ?S0 = "\<lparr>var_x = [replicate 39 0], var_word = [], var_c = py_str ''-'', np_random = ()\<rparr>"
  let ?S1 = "\<lparr>var_x = [replicate 39 0, (replicate 39 0)[0 := 1]], var_word = py_str ''a'',
              var_c = py_str ''a'', np_random = ()\<rparr>"
  let ?S2 = "\<lparr>var_x = [replicate 39 0, (replicate 39 0)[0 := 1], (replicate 39 0)[1 := 1]],
              var_word = py_str ''ab'', var_c = py_str ''b'', np_random = ()\<rparr>"
  let ?S3 = "\<lparr>var_x = [replicate 39 0, (replicate 39 0)[0 := 1], (replicate 39 0)[1 := 1],
                        (replicate 39 0)[37 := 1]],
              var_word = py_str ''ab.'', var_c = py_str ''.'', np_random = ()\<rparr>"
  have "generation_loop argmax_select short_model ?S0 = generation_loop argmax_select short_model ?S1"
    using short_body_0 by (intro generation_loop_step) (simp_all add: py_str_def)
  also have "\<dots> = generation_loop argmax_select short_model ?S2"
    using short_body_1 by (intro generation_loop_step) (simp_all add: py_str_def)
  also have "\<dots> = generation_loop argmax_select short_model ?S3"
    using short_body_2 by (intro generation_loop_step) (simp_all add: py_str_def)
  also have "\<dots> = Some (Inr ?S3)"
    by (rule generation_loop_done) simp
  finally show ?thesis by (simp add: greedy_generation_def initialise_fresh_kernel)
qed

lemma stochastic_replay_run:
  "stochastic_generation replay_choice short_model
       \<lparr>var_x = [], var_word = py_str ''kel.'', var_c = py_str ''.'', np_random = [9, 37]\<rparr> =
     Some (Inr \<lparr>var_x = [replicate 39 0, (replicate 39 0)[9 := 1], (replicate 39 0)[37 := 1]],
                var_word = py_str ''j.'', var_c = py_str ''.'', np_random = []\<rparr>)"
proof -
  let ?S0 = "\<lparr>var_x = [replicate 39 0], var_word = [], var_c = py_str ''-'', np_random = [9, 37 :: int]\<rparr>"
  let ?S1 = "\<lparr>var_x = [replicate 39 0, (replicate 39 0)[9 := 1]], var_word = py_str ''j'',
              var_c = py_str ''j'', np_random = [37 :: int]\<rparr>"
  let ?S2 = "\<lparr>var_x = [replicate 39 0, (replicate 39 0)[9 := 1], (replicate 39 0)[37 := 1]],
              var_word = py_str ''j.'', var_c = py_str ''.'', np_random = [] :: int list\<rparr>"
  have i: "initialise \<lparr>var_x = [], var_word = py_str ''kel.'', var_c = py_str ''.'', np_random = [9, 37 :: int]\<rparr> = ?S0"
    by (simp add: initialise_def n_eq)
  have b0: "loop_body replay_choice short_model ?S0 = Inr ?S1"
    using loop_body_select [of short_model ?S0 replay_choice 9 "[37]"] short_model_argmax [of "var_x ?S0"]
    by (simp add: chars_eq py_str_def replay_choice_def)
  have b1: "loop_body replay_choice short_model ?S1 = Inr ?S2"
    using loop_body_select [of short_model ?S1 replay_choice 37 "[]"] short_model_argmax [of "var_x ?S1"]
    by (simp add: chars_eq py_str_def replay_choice_def)
  have "generation_loop replay_choice short_model ?S0 = generation_loop replay_choice short_model ?S1"
    using b0 by (intro generation_loop_step) (simp_all add: py_str_def)
  also have "\<dots> = generation_loop replay_choice short_model ?S2"
    using b1 by (intro generation_loop_step) (simp_all add: py_str_def)
  also have "\<dots> = Some (Inr ?S2)"
    by (rule generation_loop_done) simp
  finally show ?thesis by (simp add: stochastic_generation_def i)
qed

lemma printed_from_initial:
  assumes "printed (generation_loop select predict (initialise s)) = Some (Inr w)"
  shows "\<exists>name. w = name @ py_str ''.'' \<and> of_char CHR ''.'' \<notin> set name"
proof -
  from assms obtain r where r: "generation_loop select predict (initialise s) = Some r"
    "map_sum id var_word r = Inr w"
    by (auto simp: printed_def)
  then obtain t where t: "generation_loop select predict (initialise s) = Some (Inr t)"
    and w: "w = var_word t"
    by (cases r) auto
  from generation_from_initial [OF t]
  have "var_word t \<noteq> []" "last (var_word t) = of_char CHR ''.''"
    "of_char CHR ''.'' \<notin> set (butlast (var_word t))" by simp_all
  then have "var_word t = butlast (var_word t) @ py_str ''.''
      \<and> of_char CHR ''.'' \<notin> set (butlast (var_word t))"
    by (simp add: py_str_def) (metis append_butlast_last_id)
  with w show ?thesis by blast
qed

text \<open>
  Claim C2, as the code has it. Neither cell has a maximum-length bound: the loop of
  either is left only when the symbol chosen last is the END marker, or by an exception
  of the body. A run terminates exactly when some iteration stops the loop in that
  sense, and it then ends with the first such iteration; when no iteration does, the
  run does not terminate. A state reached after \<open>k\<close> iterations holds a string of
  \<open>k\<close> symbols, whatever \<open>k\<close> is.
\<close>

theorem generation_stops_only_at_END:
  "stochastic_generation choice predict s =
     (if \<exists>k. stops (iterations k choice predict (initialise s))
      then Some (iterations (LEAST k. stops (iterations k choice predict (initialise s)))
                   choice predict (initialise s))
      else None)
   \<and> greedy_generation predict' s' =
     (if \<exists>k. stops (iterations k argmax_select predict' (initialise s'))
      then Some (iterations (LEAST k. stops (iterations k argmax_select predict' (initialise s')))
                   argmax_select predict' (initialise s'))
      else None)
   \<and> (iterations k select predict'' (initialise s'') = Inr t \<longrightarrow> length (var_word t) = k)"
proof (intro conjI impI)
  show "stochastic_generation choice predict s =
     (if \<exists>k. stops (iterations k choice predict (initialise s))
      then Some (iterations (LEAST k. stops (iterations k choice predict (initialise s)))
                   choice predict (initialise s))
      else None)"
    unfolding stochastic_generation_def by (rule generation_loop_eq)
  show "greedy_generation predict' s' =
     (if \<exists>k. stops (iterations k argmax_select predict' (initialise s'))
      then Some (iterations (LEAST k. stops (iterations k argmax_select predict' (initialise s')))
                   argmax_select predict' (initialise s'))
      else None)"
    unfolding greedy_generation_def by (rule generation_loop_eq)
  assume "iterations k select predict'' (initialise s'') = Inr t"
  from iterations_length [OF this] show "length (var_word t) = k"
    by (simp add: initialise_def)
qed

theorem generation_stops_only_at_END_witness:
  "iterations 3 argmax_select short_model (initialise fresh_kernel) =
     Inr \<lparr>var_x = [replicate 39 0, (replicate 39 0)[0 := 1], (replicate 39 0)[1 := 1],
                  (replicate 39 0)[37 := 1]],
          var_word = py_str ''ab.'', var_c = py_str ''.'', np_random = ()\<rparr>
   \<and> length (py_str ''ab.'') = 3"
  using generation_stops_only_at_END [of replay_choice short_model
      "\<lparr>var_x = [], var_word = [], var_c = [], np_random = []\<rparr>" short_model fresh_kernel
      3 argmax_select short_model fresh_kernel]
  by (simp add: short_model_iterations py_str_def)

text \<open>
  The claim as stated has every run terminate within a bound. With the network that
  predicts the uniform distribution, the greedy cell picks index 0 at every step and
  never leaves its loop.
\<close>

theorem generation_terminates_counterexample:
  "greedy_generation uniform_model fresh_kernel = None"
  by (rule greedy_generation_uniform_model)

text \<open>
  Claim C3, as the code has it. The string a completed run of either cell prints
  includes the END marker: it is some string without \<open>.\<close> followed by the \<open>.\<close> whose
  choice ended the loop.
\<close>

theorem generated_string_ends_with_END:
  "(printed (stochastic_generation choice predict s) = Some (Inr w) \<longrightarrow>
      (\<exists>name. w = name @ py_str ''.'' \<and> of_char CHR ''.'' \<notin> set name))
   \<and> (printed (greedy_generation predict' s') = Some (Inr w') \<longrightarrow>
      (\<exists>name. w' = name @ py_str ''.'' \<and> of_char CHR ''.'' \<notin> set name))"
  using printed_from_initial [of choice predict s w]
    printed_from_initial [of argmax_select predict' s' w']
  by (simp add: stochastic_generation_def greedy_generation_def)

theorem generated_string_ends_with_END_witness:
  "printed (stochastic_generation replay_choice short_model
       \<lparr>var_x = [], var_word = py_str ''kel.'', var_c = py_str ''.'', np_random = [9, 37]\<rparr>) =
     Some (Inr (py_str ''j.''))
   \<and> printed (greedy_generation short_model fresh_kernel) = Some (Inr (py_str ''ab.''))
   \<and> (\<exists>name. py_str ''j.'' = name @ py_str ''.'' \<and> of_char CHR ''.'' \<notin> set name)
   \<and> (\<exists>name. py_str ''ab.'' = name @ py_str ''.'' \<and> of_char CHR ''.'' \<notin> set name)"
  using generated_string_ends_with_END [of replay_choice short_model
      "\<lparr>var_x = [], var_word = py_str ''kel.'', var_c = py_str ''.'', np_random = [9, 37]\<rparr>"
      "py_str ''j.''" short_model fresh_kernel "py_str ''ab.''"]
  by (simp add: stochastic_replay_run greedy_short_model_run printed_def)

text \<open>
  The claim as stated has the END marker left out of the returned string. The greedy
  cell, run on the network that predicts \<open>a\<close>, \<open>b\<close> and then END, prints \<open>ab.\<close>
\<close>

theorem generated_string_excludes_END_counterexample:
  "printed (greedy_generation short_model fresh_kernel) = Some (Inr (py_str ''ab.''))"
  by (simp add: greedy_short_model_run printed_def)

text \<open>
  Claim C7. What the greedy cell prints depends on the network alone: it is the same
  from any two states of the notebook, whatever values \<open>x\<close>, \<open>word\<close> and \<open>c\<close> hold
  from earlier runs and whatever the state of the random generator. The stochastic cell
  run from two states of the notebook with the same state of the random generator ends
  in the same state, and so prints the same string. Neither cell takes a seed prefix.
\<close>

theorem generation_deterministic:
  "printed (greedy_generation predict (s :: 'g globals)) =
     printed (greedy_generation predict (s' :: 'g globals))
   \<and> (np_random t = np_random t' \<longrightarrow>
        stochastic_generation choice predict' t = stochastic_generation choice predict' t'
        \<and> printed (stochastic_generation choice predict' t) =
            printed (stochastic_generation choice predict' t'))"
proof (intro conjI impI)
  have "greedy_generation predict s' =
      map_option (map_sum id (\<lambda>u. u\<lparr>np_random := np_random s'\<rparr>)) (greedy_generation predict s)"
    unfolding greedy_generation_def
    by (subst initialise_random [of s' s]) (rule generation_loop_greedy_random)
  then show "printed (greedy_generation predict s) = printed (greedy_generation predict s')"
    by (simp add: printed_random)
next
  assume "np_random t = np_random t'"
  then have "initialise t = initialise t'" by (simp add: initialise_def)
  then show g: "stochastic_generation choice predict' t = stochastic_generation choice predict' t'"
    by (simp add: stochastic_generation_def)
  then show "printed (stochastic_generation choice predict' t) =
            printed (stochastic_generation choice predict' t')" by simp
qed

theorem generation_deterministic_witness:
  "np_random \<lparr>var_x = [], var_word = py_str ''kel.'', var_c = py_str ''.'', np_random = [9, 37 :: int]\<rparr> =
     np_random \<lparr>var_x = [], var_word = [], var_c = [], np_random = [9, 37 :: int]\<rparr>
   \<and> printed (stochastic_generation replay_choice short_model
        \<lparr>var_x = [], var_word = [], var_c = [], np_random = [9, 37]\<rparr>) = Some (Inr (py_str ''j.''))
   \<and> printed (greedy_generation short_model
        \<lparr>var_x = [[1]], var_word = py_str ''kel.'', var_c = py_str ''.'', np_random = ()\<rparr>) =
       Some (Inr (py_str ''ab.''))"
  using generation_deterministic [of short_model fresh_kernel
      "\<lparr>var_x = [[1]], var_word = py_str ''kel.'', var_c = py_str ''.'', np_random = ()\<rparr>"
      "\<lparr>var_x = [], var_word = py_str ''kel.'', var_c = py_str ''.'', np_random = [9, 37 :: int]\<rparr>"
      "\<lparr>var_x = [], var_word = [], var_c = [], np_random = [9, 37 :: int]\<rparr>"
      replay_choice short_model]
  by (simp add: stochastic_replay_run greedy_short_model_run printed_def)

section \<open>The prepared tensors\<close>

lemma one_hot_rows_general:
  assumes "distinct is"
    and "\<forall>i \<in> set is. i < length we \<and> 0 \<le> word_int ! i \<and> word_int ! i < int (length (we ! i))"
  shows "one_hot_rows is word_int we =
     Inr (map (\<lambda>i. if i \<in> set is then (we ! i)[nat (word_int ! i) := 1] else we ! i)
            [0..<length we])"
  using assms
proof (induction "is" arbitrary: we)
  case Nil
  then show ?case by (simp add: map_nth)
next
  case (Cons i "is")
  let ?we = "we[i := (we ! i)[nat (word_int ! i) := 1]]"
  from Cons.prems have i: "i < length we" "0 \<le> word_int ! i" "word_int ! i < int (length (we ! i))"
    "i \<notin> set is" "distinct is" by auto
  then have si: "set_item we i (word_int ! i) 1 = Inr ?we"
    by (simp add: set_item_def Let_def)
  have pre: "\<forall>j \<in> set is. j < length ?we \<and> 0 \<le> word_int ! j
      \<and> word_int ! j < int (length (?we ! j))"
  proof
    fix j assume j: "j \<in> set is"
    with i(4) have "j \<noteq> i" by auto
    with Cons.prems(2) j show "j < length ?we \<and> 0 \<le> word_int ! j
      \<and> word_int ! j < int (length (?we ! j))" by simp
  qed
  have "one_hot_rows is word_int ?we =
     Inr (map (\<lambda>j. if j \<in> set is then (?we ! j)[nat (word_int ! j) := 1] else ?we ! j)
            [0..<length ?we])"
    using i(5) pre by (rule Cons.IH)
  also have "map (\<lambda>j. if j \<in> set is then (?we ! j)[nat (word_int ! j) := 1] else ?we ! j)
            [0..<length ?we] =
     map (\<lambda>j. if j \<in> set (i # is) then (we ! j)[nat (word_int ! j) := 1] else we ! j)
            [0..<length we]"
    using i(1,4) by (auto simp: nth_list_update)
  finally show ?case using si by (simp add: Let_def)
qed

lemma one_hot_encoding_ok:
  assumes "0 \<le> features" "\<forall>p \<in> set word_int. 0 \<le> p \<and> p < features"
  shows "one_hot_encoding word_int features =
     Inr (map (\<lambda>p. (replicate (nat features) 0)[nat p := 1]) word_int)"
proof -
  let ?k = "length word_int"
  let ?we = "replicate ?k (replicate (nat features) (0::int))"
  have "one_hot_rows [0..<?k] word_int ?we =
     Inr (map (\<lambda>i. if i \<in> set [0..<?k] then (?we ! i)[nat (word_int ! i) := 1] else ?we ! i)
            [0..<length ?we])"
    using assms by (intro one_hot_rows_general) auto
  also have "map (\<lambda>i. if i \<in> set [0..<?k] then (?we ! i)[nat (word_int ! i) := 1] else ?we ! i)
            [0..<length ?we] = map (\<lambda>p. (replicate (nat features) 0)[nat p := 1]) word_int"
    by (rule nth_equalityI) simp_all
  finally show ?thesis using assms(1) by (simp add: one_hot_encoding_def Let_def)
qed

lemma spec_one_hot_row_eq: "k < V \<Longrightarrow> (replicate V 0)[k := 1] = spec_one_hot_row V k"
  by (rule nth_equalityI) (auto simp: spec_one_hot_row_def nth_list_update)

lemma spec_index_nth: "i < 39 \<Longrightarrow> chars ! i = [c] \<Longrightarrow> spec_index c = i"
proof -
  assume i: "i < 39" and c: "chars ! i = [c]"
  have "takeWhile (\<lambda>s. s \<noteq> [c]) chars = take i chars"
  proof (rule takeWhile_eq_take_P_nth)
    fix j assume "j < i" "j < length chars"
    with i have "chars ! j \<noteq> chars ! i"
      using distinct_chars by (simp add: nth_eq_iff_index_eq length_chars)
    with c show "chars ! j \<noteq> [c]" by simp
  next
    show "\<not> chars ! i \<noteq> [c]" using c by simp
  qed
  with i show ?thesis by (simp add: spec_index_def length_chars)
qed

lemma char_index:
  assumes "[c] \<in> set chars"
  shows "map_of map_char_to_int [c] = Some (int (spec_index c)) \<and> spec_index c < 39"
proof -
  from char_to_int_known [OF assms] obtain i where i: "i < 39" "[c] = chars ! i"
    "map_of map_char_to_int [c] = Some (int i)" by blast
  from spec_index_nth [OF i(1)] i(2) have "spec_index c = i" by simp
  with i show ?thesis by simp
qed

lemma encode_word_alphabet:
  assumes "\<forall>c \<in> set word. [c] \<in> set chars"
  shows "encode_word_to_int word map_char_to_int = Inr (map (\<lambda>c. int (spec_index c)) word)"
proof -
  have "map (\<lambda>c. the (map_of map_char_to_int [c])) word = map (\<lambda>c. int (spec_index c)) word"
    using assms by (intro map_cong) (simp_all add: char_index)
  with assms show ?thesis by (simp add: encode_word_to_int_chars)
qed

lemma one_hot_word:
  assumes "\<forall>c \<in> set word. [c] \<in> set chars"
  shows "one_hot_encoding (map (\<lambda>c. int (spec_index c)) word) n = Inr (spec_one_hot_rows word)"
proof -
  have r: "\<forall>p \<in> set (map (\<lambda>c. int (spec_index c)) word). 0 \<le> p \<and> p < 39"
    using assms char_index by auto
  have "map (\<lambda>p. (replicate (nat 39) 0)[nat p := 1]) (map (\<lambda>c. int (spec_index c)) word) =
      spec_one_hot_rows word"
    using assms by (simp add: spec_one_hot_rows_def spec_one_hot_row_eq char_index)
  with one_hot_encoding_ok [of 39, OF _ r] show ?thesis by (simp add: n_eq)
qed

lemma encode_names_ok:
  assumes "\<forall>name \<in> set names. \<forall>c \<in> set name. [c] \<in> set chars"
  shows "encode_names names (X_int, X_encoded) =
     Inr (X_int @ map (map (\<lambda>c. int (spec_index c))) names, X_encoded @ map spec_one_hot_rows names)"
  using assms
proof (induction names arbitrary: X_int X_encoded)
  case Nil
  then show ?case by simp
next
  case (Cons word names)
  from Cons.prems have w: "\<forall>c \<in> set word. [c] \<in> set chars"
    and rest: "\<forall>name \<in> set names. \<forall>c \<in> set name. [c] \<in> set chars" by simp_all
  from Cons.IH [OF rest] show ?case
    by (simp add: encode_word_alphabet [OF w] one_hot_word [OF w])
qed

lemma X_male_int_eq:
  "\<forall>name \<in> set names. \<forall>c \<in> set name. [c] \<in> set chars \<Longrightarrow>
     X_male_int names = Inr (map (map (\<lambda>c. int (spec_index c))) names)"
  by (simp add: X_male_int_def encode_names_ok)

lemma X_male_encoded_eq:
  "\<forall>name \<in> set names. \<forall>c \<in> set name. [c] \<in> set chars \<Longrightarrow>
     X_male_encoded names = Inr (map spec_one_hot_rows names)"
  by (simp add: X_male_encoded_def encode_names_ok)

lemma END_in_chars: "[46] \<in> set chars"
  by (simp add: chars_eq)

lemma spec_index_END: "spec_index 46 = 37"
  by (rule spec_index_nth) (simp_all add: chars_eq)

lemma lookup_END: "lookup map_char_to_int (py_str ''.'') = Inr 37"
  using char_index [OF END_in_chars]
  by (simp add: lookup_def py_str_def spec_index_END)

lemma dot_encoded_eq: "dot_encoded = Inr (spec_one_hot_rows (py_str ''.''))"
  using one_hot_word [of "[46]"] END_in_chars
  by (simp add: dot_encoded_def lookup_END spec_index_END) (simp add: py_str_def)

lemma y_male_encoded_eq:
  assumes "\<forall>name \<in> set names. \<forall>c \<in> set name. [c] \<in> set chars"
  shows "y_male_encoded names = Inr (map (\<lambda>name. spec_one_hot_rows (drop 1 name @ py_str ''.'')) names)"
  using assms
  by (simp add: y_male_encoded_def X_male_encoded_eq dot_encoded_eq spec_one_hot_rows_def drop_map)

lemma comprehension_ok: "\<forall>v \<in> set vs. f v = Inr (g v) \<Longrightarrow> comprehension f vs = Inr (map g vs)"
  by (induction vs) simp_all

lemma np_add_single: "np_add a [d] = Inr (map (\<lambda>v. v + d) a)"
proof (cases "length a = 1")
  case True
  then obtain v where "a = [v]" by (cases a) auto
  then show ?thesis by (simp add: np_add_def)
next
  case False
  then show ?thesis by (simp add: np_add_def)
qed

lemma y_male_int_eq:
  assumes "\<forall>name \<in> set names. \<forall>c \<in> set name. [c] \<in> set chars"
  shows "y_male_int names = Inr (map (\<lambda>name. map (\<lambda>c. int (spec_index c) + 37) (drop 1 name)) names)"
proof -
  have "comprehension
      (\<lambda>word_int. case lookup map_char_to_int (py_str ''.'') of
                     Inl e \<Rightarrow> Inl e
                   | Inr d \<Rightarrow> np_add (drop 1 word_int) [d])
      (map (map (\<lambda>c. int (spec_index c))) names) =
    Inr (map (\<lambda>word_int. map (\<lambda>v. v + 37) (drop 1 word_int)) (map (map (\<lambda>c. int (spec_index c))) names))"
    by (rule comprehension_ok) (simp add: lookup_END np_add_single)
  with assms show ?thesis
    by (simp add: y_male_int_def X_male_int_eq drop_map comp_def)
qed

lemma fold_longest:
  "fold (\<lambda>v best. if length best < length v then v else best) ws w \<in> set (w # ws)
   \<and> (\<forall>v \<in> set (w # ws).
        length v \<le> length (fold (\<lambda>v best. if length best < length v then v else best) ws w))"
proof (induction ws arbitrary: w)
  case Nil
  then show ?case by simp
next
  case (Cons v ws)
  show ?case
  proof (cases "length w < length v")
    case True
    with Cons.IH [of v] show ?thesis by auto
  next
    case False
    with Cons.IH [of w] show ?thesis by auto
  qed
qed

lemma timesteps_eq:
  assumes "names \<noteq> []"
  shows "timesteps names = Inr (Max (length ` set names))"
proof -
  from assms obtain w ws where names: "names = w # ws" by (cases names) auto
  let ?r = "fold (\<lambda>v best. if length best < length v then v else best) ws w"
  from fold_longest [of ws w] have "?r \<in> set names" "\<forall>v \<in> set names. length v \<le> length ?r"
    by (simp_all add: names)
  then have "Max (length ` set names) = length ?r"
    by (intro Max_eqI) auto
  then show ?thesis by (simp add: timesteps_def max_key_len_def names)
qed

lemma pad_sequences_ok:
  assumes "\<exists>s \<in> set sequences. s \<noteq> []" "\<forall>s \<in> set sequences. \<forall>r \<in> set s. length r = w"
  shows "pad_sequences sequences maxlen =
     Inr (map (\<lambda>s. take maxlen s @ replicate (maxlen - length (take maxlen s)) (replicate w 0))
            sequences)"
proof -
  from assms(1) have "filter (\<lambda>s. s \<noteq> []) sequences \<noteq> []"
    by (simp add: filter_empty_conv)
  then obtain s0 rest where f: "filter (\<lambda>s. s \<noteq> []) sequences = s0 # rest"
    by (cases "filter (\<lambda>s. s \<noteq> []) sequences") auto
  then have "s0 \<in> set (filter (\<lambda>s. s \<noteq> []) sequences)" by simp
  then have s0: "s0 \<in> set sequences" "s0 \<noteq> []" by auto
  then have "hd s0 \<in> set s0" by simp
  with assms(2) s0(1) have w: "length (hd s0) = w" by blast
  from assms(2) w show ?thesis by (simp add: pad_sequences_def f Let_def)
qed

lemma length_spec_one_hot_rows: "length (spec_one_hot_rows w) = length w"
  by (simp add: spec_one_hot_rows_def)

lemma width_spec_one_hot_rows: "r \<in> set (spec_one_hot_rows w) \<Longrightarrow> length r = 39"
  by (auto simp: spec_one_hot_rows_def spec_one_hot_row_def)

lemma padded_eq:
  assumes ne: "names \<noteq> []"
    and ok: "\<forall>name \<in> set names. name \<noteq> [] \<and> (\<forall>c \<in> set name. [c] \<in> set chars)"
    and T: "T = Max (length ` set names)"
  shows "timesteps names = Inr T"
    and "\<forall>name \<in> set names. length name \<le> T"
    and "X_male_padded names =
      Inr (map (\<lambda>name. spec_one_hot_rows name @ replicate (T - length name) (replicate 39 0)) names)"
    and "y_male_padded names =
      Inr (map (\<lambda>name. spec_one_hot_rows (drop 1 name @ py_str ''.'')
                         @ replicate (T - length name) (replicate 39 0)) names)"
proof -
  show ts: "timesteps names = Inr T" using ne T by (simp add: timesteps_eq)
  show le: "\<forall>name \<in> set names. length name \<le> T" using T by simp
  from ok have alpha: "\<forall>name \<in> set names. \<forall>c \<in> set name. [c] \<in> set chars" by simp
  from ne obtain w where w: "w \<in> set names" by (cases names) auto
  with ok have wne: "w \<noteq> []" by simp
  have "pad_sequences (map spec_one_hot_rows names) T =
      Inr (map (\<lambda>s. take T s @ replicate (T - length (take T s)) (replicate 39 0))
            (map spec_one_hot_rows names))"
  proof (rule pad_sequences_ok)
    show "\<exists>s \<in> set (map spec_one_hot_rows names). s \<noteq> []"
      using w wne by (auto simp: spec_one_hot_rows_def)
    show "\<forall>s \<in> set (map spec_one_hot_rows names). \<forall>r \<in> set s. length r = 39"
      by (auto simp: width_spec_one_hot_rows)
  qed
  also have "map (\<lambda>s. take T s @ replicate (T - length (take T s)) (replicate 39 0))
            (map spec_one_hot_rows names) =
      map (\<lambda>name. spec_one_hot_rows name @ replicate (T - length name) (replicate 39 0)) names"
    using le by (simp add: length_spec_one_hot_rows)
  finally show "X_male_padded names =
      Inr (map (\<lambda>name. spec_one_hot_rows name @ replicate (T - length name) (replicate 39 0)) names)"
    by (simp add: X_male_padded_def ts X_male_encoded_eq [OF alpha])
  let ?target = "\<lambda>name. spec_one_hot_rows (drop 1 name @ py_str ''.'')"
  have len: "\<forall>name \<in> set names. length (?target name) = length name"
    using ok by (auto simp: length_spec_one_hot_rows py_str_def)
  have "pad_sequences (map ?target names) T =
      Inr (map (\<lambda>s. take T s @ replicate (T - length (take T s)) (replicate 39 0))
            (map ?target names))"
  proof (rule pad_sequences_ok)
    show "\<exists>s \<in> set (map ?target names). s \<noteq> []"
      using w by (auto simp: spec_one_hot_rows_def py_str_def)
    show "\<forall>s \<in> set (map ?target names). \<forall>r \<in> set s. length r = 39"
      by (auto simp: width_spec_one_hot_rows)
  qed
  also have "map (\<lambda>s. take T s @ replicate (T - length (take T s)) (replicate 39 0))
            (map ?target names) =
      map (\<lambda>name. ?target name @ replicate (T - length name) (replicate 39 0)) names"
    using le len by simp
  finally show "y_male_padded names =
      Inr (map (\<lambda>name. ?target name @ replicate (T - length name) (replicate 39 0)) names)"
    by (simp add: y_male_padded_def ts y_male_encoded_eq [OF alpha])
qed

text \<open>
  Claim C8. For a corpus of \<open>N \<ge> 1\<close> names, each of them non-empty and over the
  alphabet, and \<open>T\<close> the greatest length of a name: \<open>timesteps\<close> is \<open>T\<close>, and the
  preparer yields \<open>N\<close> input tensors and \<open>N\<close> target tensors, each of \<open>T\<close> rows of
  width 39. The first \<open>len(name)\<close> rows of the input tensor are the one-hot rows of the
  name, those of the target tensor are the one-hot rows of the name shifted by one with
  END appended, and the remaining \<open>T - len(name)\<close> rows of both are all zero. No name is
  longer than \<open>T\<close>, so none is truncated.
\<close>

theorem padded_tensors:
  assumes "male_names_data \<noteq> []"
    and "\<forall>name \<in> set male_names_data. name \<noteq> [] \<and> (\<forall>c \<in> set name. [c] \<in> set chars)"
    and "T = Max (length ` set male_names_data)"
  shows "timesteps male_names_data = Inr T
    \<and> (\<exists>X y. X_male_padded male_names_data = Inr X \<and> y_male_padded male_names_data = Inr y
         \<and> length X = length male_names_data \<and> length y = length male_names_data
         \<and> (\<forall>i < length male_names_data.
              length (male_names_data ! i) \<le> T
              \<and> length (X ! i) = T \<and> length (y ! i) = T
              \<and> (\<forall>r \<in> set (X ! i) \<union> set (y ! i). length r = 39)
              \<and> take (length (male_names_data ! i)) (X ! i) =
                  spec_one_hot_rows (male_names_data ! i)
              \<and> drop (length (male_names_data ! i)) (X ! i) =
                  replicate (T - length (male_names_data ! i)) (replicate 39 0)
              \<and> take (length (male_names_data ! i)) (y ! i) =
                  spec_one_hot_rows (drop 1 (male_names_data ! i) @ py_str ''.'')
              \<and> drop (length (male_names_data ! i)) (y ! i) =
                  replicate (T - length (male_names_data ! i)) (replicate 39 0)))"
proof -
  let ?X = "map (\<lambda>name. spec_one_hot_rows name @ replicate (T - length name) (replicate 39 0))
              male_names_data"
  let ?y = "map (\<lambda>name. spec_one_hot_rows (drop 1 name @ py_str ''.'')
                         @ replicate (T - length name) (replicate 39 0)) male_names_data"
  note p = padded_eq [OF assms]
  have rows: "length (male_names_data ! i) \<le> T
              \<and> length (?X ! i) = T \<and> length (?y ! i) = T
              \<and> (\<forall>r \<in> set (?X ! i) \<union> set (?y ! i). length r = 39)
              \<and> take (length (male_names_data ! i)) (?X ! i) =
                  spec_one_hot_rows (male_names_data ! i)
              \<and> drop (length (male_names_data ! i)) (?X ! i) =
                  replicate (T - length (male_names_data ! i)) (replicate 39 0)
              \<and> take (length (male_names_data ! i)) (?y ! i) =
                  spec_one_hot_rows (drop 1 (male_names_data ! i) @ py_str ''.'')
              \<and> drop (length (male_names_data ! i)) (?y ! i) =
                  replicate (T - length (male_names_data ! i)) (replicate 39 0)"
    if i: "i < length male_names_data" for i
  proof -
    let ?name = "male_names_data ! i"
    from i have mem: "?name \<in> set male_names_data" by simp
    with p(2) have le: "length ?name \<le> T" by simp
    from mem assms(2) have ne: "?name \<noteq> []" by simp
    then have tl: "length (spec_one_hot_rows (drop 1 ?name @ py_str ''.'')) = length ?name"
      by (simp add: length_spec_one_hot_rows py_str_def)
    have xl: "length (spec_one_hot_rows ?name) = length ?name"
      by (rule length_spec_one_hot_rows)
    show ?thesis using i le tl xl
      by (auto simp: width_spec_one_hot_rows)
  qed
  have lx: "length ?X = length male_names_data" and ly: "length ?y = length male_names_data"
    by simp_all
  have "X_male_padded male_names_data = Inr ?X \<and> y_male_padded male_names_data = Inr ?y
         \<and> length ?X = length male_names_data \<and> length ?y = length male_names_data
         \<and> (\<forall>i < length male_names_data.
              length (male_names_data ! i) \<le> T
              \<and> length (?X ! i) = T \<and> length (?y ! i) = T
              \<and> (\<forall>r \<in> set (?X ! i) \<union> set (?y ! i). length r = 39)
              \<and> take (length (male_names_data ! i)) (?X ! i) =
                  spec_one_hot_rows (male_names_data ! i)
              \<and> drop (length (male_names_data ! i)) (?X ! i) =
                  replicate (T - length (male_names_data ! i)) (replicate 39 0)
              \<and> take (length (male_names_data ! i)) (?y ! i) =
                  spec_one_hot_rows (drop 1 (male_names_data ! i) @ py_str ''.'')
              \<and> drop (length (male_names_data ! i)) (?y ! i) =
                  replicate (T - length (male_names_data ! i)) (replicate 39 0))"
    using p(3,4) rows lx ly by blast
  then have "\<exists>X y. X_male_padded male_names_data = Inr X \<and> y_male_padded male_names_data = Inr y
         \<and> length X = length male_names_data \<and> length y = length male_names_data
         \<and> (\<forall>i < length male_names_data.
              length (male_names_data ! i) \<le> T
              \<and> length (X ! i) = T \<and> length (y ! i) = T
              \<and> (\<forall>r \<in> set (X ! i) \<union> set (y ! i). length r = 39)
              \<and> take (length (male_names_data ! i)) (X ! i) =
                  spec_one_hot_rows (male_names_data ! i)
              \<and> drop (length (male_names_data ! i)) (X ! i) =
                  replicate (T - length (male_names_data ! i)) (replicate 39 0)
              \<and> take (length (male_names_data ! i)) (y ! i) =
                  spec_one_hot_rows (drop 1 (male_names_data ! i) @ py_str ''.'')
              \<and> drop (length (male_names_data ! i)) (y ! i) =
                  replicate (T - length (male_names_data ! i)) (replicate 39 0))"
    by (intro exI [of _ ?X] exI [of _ ?y])
  with p(1) show ?thesis by (rule conjI)
qed

theorem padded_tensors_witness:
  "[py_str ''ab'', py_str ''c''] \<noteq> []
   \<and> (2::nat) = Max (length ` set [py_str ''ab'', py_str ''c''])
   \<and> timesteps [py_str ''ab'', py_str ''c''] = Inr 2
   \<and> (\<exists>X y. X_male_padded [py_str ''ab'', py_str ''c''] = Inr X
          \<and> y_male_padded [py_str ''ab'', py_str ''c''] = Inr y
          \<and> length (X ! 1) = 2
          \<and> take 1 (X ! 1) = spec_one_hot_rows (py_str ''c'')
          \<and> drop 1 (X ! 1) = [replicate 39 0]
          \<and> take 1 (y ! 1) = spec_one_hot_rows (py_str ''.'')
          \<and> drop 1 (y ! 1) = [replicate 39 0])"
proof -
  let ?names = "[py_str ''ab'', py_str ''c'']"
  have a: "?names \<noteq> []" by simp
  have b: "\<forall>name \<in> set ?names. name \<noteq> [] \<and> (\<forall>c \<in> set name. [c] \<in> set chars)"
    by (simp add: py_str_def chars_eq)
  have c: "(2::nat) = Max (length ` set ?names)" by (simp add: py_str_def)
  from padded_tensors [OF a b c] obtain X y where
    t: "timesteps ?names = Inr 2" and X: "X_male_padded ?names = Inr X"
    and y: "y_male_padded ?names = Inr y"
    and rows: "\<forall>i < length ?names.
              length (?names ! i) \<le> 2
              \<and> length (X ! i) = 2 \<and> length (y ! i) = 2
              \<and> (\<forall>r \<in> set (X ! i) \<union> set (y ! i). length r = 39)
              \<and> take (length (?names ! i)) (X ! i) = spec_one_hot_rows (?names ! i)
              \<and> drop (length (?names ! i)) (X ! i) =
                  replicate (2 - length (?names ! i)) (replicate 39 0)
              \<and> take (length (?names ! i)) (y ! i) =
                  spec_one_hot_rows (drop 1 (?names ! i) @ py_str ''.'')
              \<and> drop (length (?names ! i)) (y ! i) =
                  replicate (2 - length (?names ! i)) (replicate 39 0)"
    by blast
  have "(1::nat) < length ?names" by simp
  with rows have "length (X ! 1) = 2
      \<and> take (length (?names ! 1)) (X ! 1) = spec_one_hot_rows (?names ! 1)
      \<and> drop (length (?names ! 1)) (X ! 1) = replicate (2 - length (?names ! 1)) (replicate 39 0)
      \<and> take (length (?names ! 1)) (y ! 1) = spec_one_hot_rows (drop 1 (?names ! 1) @ py_str ''.'')
      \<and> drop (length (?names ! 1)) (y ! 1) = replicate (2 - length (?names ! 1)) (replicate 39 0)"
    by blast
  then have "length (X ! 1) = 2
          \<and> take 1 (X ! 1) = spec_one_hot_rows (py_str ''c'')
          \<and> drop 1 (X ! 1) = [replicate 39 0]
          \<and> take 1 (y ! 1) = spec_one_hot_rows (py_str ''.'')
          \<and> drop 1 (y ! 1) = [replicate 39 0]"
    by (simp add: py_str_def)
  with a c t X y show ?thesis by blast
qed

lemma spec_index_a: "spec_index 97 = 0"
  by (rule spec_index_nth) (simp_all add: chars_eq)

lemma spec_index_b: "spec_index 98 = 1"
  by (rule spec_index_nth) (simp_all add: chars_eq)

lemma y_male_shift:
  assumes "name \<noteq> []"
  shows "length (drop 1 name @ py_str ''.'') = length name
    \<and> (\<forall>i. Suc i < length name \<longrightarrow> (drop 1 name @ py_str ''.'') ! i = name ! Suc i)
    \<and> (drop 1 name @ py_str ''.'') ! (length name - 1) = of_char CHR ''.''"
proof -
  from assms obtain c cs where "name = c # cs" by (cases name) auto
  then show ?thesis by (simp add: py_str_def nth_append)
qed

text \<open>
  Claim C1 holds for the string and the one-hot representation and fails for the
  integer one. For the name \<open>ab\<close>, with integers \<open>[0, 1]\<close>: the target string is
  \<open>b.\<close>, whose integers are \<open>[1, 37]\<close>, and the one-hot target is the encoding of that
  string; but \<open>y_male_int\<close> is \<open>[38]\<close>, of length 1, because \<open>word_int[1:] + [37]\<close> on an
  array adds 37 to every entry instead of appending it.
\<close>

theorem y_male_int_is_elementwise_sum:
  "X_male_int [py_str ''ab''] = Inr [[0, 1]]
   \<and> y_male [py_str ''ab''] = [py_str ''b.'']
   \<and> encode_word_to_int (py_str ''b.'') map_char_to_int = Inr [1, 37]
   \<and> y_male_encoded [py_str ''ab''] = X_male_encoded (y_male [py_str ''ab''])
   \<and> y_male_int [py_str ''ab''] = Inr [[38]]"
proof -
  have ab: "\<forall>name \<in> set [py_str ''ab'']. \<forall>c \<in> set name. [c] \<in> set chars"
    by (simp add: py_str_def chars_eq)
  have b: "\<forall>name \<in> set [py_str ''b.'']. \<forall>c \<in> set name. [c] \<in> set chars"
    by (simp add: py_str_def chars_eq)
  have 1: "X_male_int [py_str ''ab''] = Inr [[0, 1]]"
    using X_male_int_eq [OF ab] by (simp add: py_str_def spec_index_a spec_index_b)
  have 2: "y_male [py_str ''ab''] = [py_str ''b.'']"
    by (simp add: y_male_def py_str_def)
  have 3: "encode_word_to_int (py_str ''b.'') map_char_to_int = Inr [1, 37]"
    using encode_word_alphabet [of "py_str ''b.''"] b
    by (simp add: py_str_def spec_index_b spec_index_END)
  have 4: "y_male_encoded [py_str ''ab''] = X_male_encoded (y_male [py_str ''ab''])"
    using y_male_encoded_eq [OF ab] X_male_encoded_eq [OF b] by (simp add: 2) (simp add: py_str_def)
  have 5: "y_male_int [py_str ''ab''] = Inr [[38]]"
    using y_male_int_eq [OF ab] by (simp add: py_str_def spec_index_b)
  from 1 2 3 4 5 show ?thesis by blast
qed

end
